theory Spec2Isabelle
  imports Main "HOL-Library.AList" "HOL-Library.Char_ord" "HOL-Library.List_Lexorder"
begin

section \<open>Common values\<close>

text \<open>
  Python exceptions that the engines raise or let escape. \<open>IOError\<close> carries the fixed
  part of the message the source builds; the operating system's own text is not modelled.
\<close>

datatype error = IOError string | KeyError | IndexError

section \<open>The LSM engine of \<^verbatim>\<open>lsm_tree.py\<close>\<close>

text \<open>
  Keys and values are Python \<open>str\<close>; they are modelled as \<open>string\<close> (lists of 8-bit
  characters, read as the code points below 256) under the lexicographic order of
  \<open>List_Lexorder\<close> over \<open>Char_ord\<close>, which is the order Python compares strings by.
  The \<open>isinstance\<close>/\<open>str()\<close> conversions at the head of \<open>insert\<close>, \<open>get\<close> and
  \<open>range_query\<close> are the identity on such arguments.

  An \<open>OrderedDict\<close> (and the \<open>dict\<close> that \<open>json.load\<close> returns) is its list of items in
  insertion order; \<open>d[k] = v\<close> is \<open>AList.update\<close> (overwrite in place, else append),
  \<open>k in d\<close>/\<open>d[k]\<close> is \<open>map_of\<close>.

  A snapshot file either holds a JSON object (\<open>json.dump\<close> writes the items of a
  string-to-string dict in order and \<open>json.load\<close> reads them back) or is unreadable; a path
  with no file is unreadable too.
\<close>

datatype sst_file = Corrupt | Table "(string \<times> string) list"

record lsm =
  memtable :: "(string \<times> string) list"
  sstables :: "string list"
  max_memtable_size :: int
  sstable_dir :: string
  wal_log :: "string option"
  disk :: "(string \<times> sst_file) list"

text \<open>
  \<open>wal_log\<close> is the content of the file \<open>wal.log\<close> (\<open>None\<close>: no such file) and \<open>disk\<close> maps
  the paths of the other files to their content. What the operating system answers during
  one call of an engine operation is an input of that call:
\<close>

record io_env =
  now_ms :: nat
  wal_append_ok :: bool
  wal_read_ok :: bool
  sst_write_ok :: bool
  remove_ok :: "string \<Rightarrow> bool"
  wal_torn :: "nat option"
  sst_torn :: "sst_file option"

text \<open>
  \<open>now_ms\<close> is \<open>int(time.time() * 1000)\<close>; \<open>wal_append_ok\<close> says whether opening the WAL for
  append and writing the line succeeds, \<open>wal_read_ok\<close> whether reading it does,
  \<open>sst_write_ok\<close> whether opening a snapshot file for writing and dumping into it does, and
  \<open>remove_ok p\<close> whether \<open>os.remove(p)\<close> succeeds on an existing file.

  A write that fails may still have changed the file. \<open>wal_torn\<close> says what a failed
  append leaves behind: \<open>None\<close> when the WAL could not be opened and is as it was,
  \<open>Some n\<close> when it was opened (and created if absent) and the first \<open>n\<close> characters of
  the line reached it. \<open>sst_torn\<close> says the same of a failed snapshot write: \<open>None\<close> when the
  file could not be opened, \<open>Some f\<close> when the path now holds \<open>f\<close>, which for a truncated
  dump is \<open>Corrupt\<close>.
\<close>

definition wal_file :: string where
  "wal_file = ''wal.log''"

subsection \<open>Names of snapshot files\<close>

definition digit_char :: "nat \<Rightarrow> char" where
  "digit_char d = ''0123456789'' ! d"

function str_nat :: "nat \<Rightarrow> string" where
  "str_nat n = (if n < 10 then [digit_char n] else str_nat (n div 10) @ [digit_char (n mod 10)])"
  by pat_completeness auto
termination
  by (relation "measure id") auto

declare str_nat.simps [simp del]

definition path_join :: "string \<Rightarrow> string \<Rightarrow> string" where
  "path_join d f =
     (if d = [] then f else if last d = CHR ''/'' then d @ f else d @ ''/'' @ f)"

definition flush_name :: "string \<Rightarrow> nat \<Rightarrow> string" where
  "flush_name d ts = path_join d (''sstable_'' @ str_nat ts @ ''.json'')"

definition compact_name :: "string \<Rightarrow> nat \<Rightarrow> string" where
  "compact_name d ts = path_join d (''sstable_compact_'' @ str_nat ts @ ''.json'')"

subsection \<open>insert and flush\<close>

definition wal_line :: "string \<Rightarrow> string \<Rightarrow> string" where
  "wal_line key val = key @ '':'' @ val @ [CHR 0x0A]"

definition wal_text :: "string option \<Rightarrow> string" where
  "wal_text w = (case w of None \<Rightarrow> [] | Some t \<Rightarrow> t)"

definition torn_append :: "io_env \<Rightarrow> string \<Rightarrow> string option \<Rightarrow> string option" where
  "torn_append io line w =
     (case wal_torn io of None \<Rightarrow> w | Some n \<Rightarrow> Some (wal_text w @ take n line))"

definition torn_write ::
  "io_env \<Rightarrow> string \<Rightarrow> (string \<times> sst_file) list \<Rightarrow> (string \<times> sst_file) list" where
  "torn_write io path d =
     (case sst_torn io of None \<Rightarrow> d | Some f \<Rightarrow> AList.update path f d)"

definition flush_memtable :: "io_env \<Rightarrow> lsm \<Rightarrow> error option \<times> lsm" where
  "flush_memtable io s =
     (if memtable s = [] then (None, s)
      else
        let sstable_name = flush_name (sstable_dir s) (now_ms io) in
        if \<not> sst_write_ok io
        then (Some (IOError ''Failed to flush memtable to SSTable''),
              s\<lparr> disk := torn_write io sstable_name (disk s) \<rparr>)
        else (None,
          s\<lparr> disk := AList.update sstable_name (Table (memtable s)) (disk s),
             sstables := sstable_name # sstables s,
             memtable := [],
             wal_log := (if remove_ok io wal_file then None else wal_log s) \<rparr>))"

definition lsm_insert :: "io_env \<Rightarrow> string \<Rightarrow> string \<Rightarrow> lsm \<Rightarrow> error option \<times> lsm" where
  "lsm_insert io key val s =
     (if \<not> wal_append_ok io
      then (Some (IOError ''Failed to write to WAL''),
            s\<lparr> wal_log := torn_append io (wal_line key val) (wal_log s) \<rparr>)
      else
        let s1 = s\<lparr> wal_log := Some (wal_text (wal_log s) @ wal_line key val) \<rparr>;
            s2 = s1\<lparr> memtable := AList.update key val (memtable s1) \<rparr>
        in if int (length (memtable s2)) \<ge> max_memtable_size s2
           then flush_memtable io s2
           else (None, s2))"

subsection \<open>get and range_query\<close>

text \<open>
  \<open>merged.update(data)\<close> assigns the items of \<open>data\<close> in order. \<open>json.load\<close> builds its
  dict the same way from the members of the JSON object in the file, so a later member
  with the same key overrides an earlier one; a \<open>Table\<close> holds the members in file order.
  \<open>read_sstable\<close> is \<open>open\<close> and \<open>json.load\<close>: \<open>None\<close> stands for \<open>IOError\<close> or
  \<open>JSONDecodeError\<close>.
\<close>

definition dict_update :: "(string \<times> string) list \<Rightarrow> (string \<times> string) list \<Rightarrow> (string \<times> string) list" where
  "dict_update merged data = fold (\<lambda>kv m. AList.update (fst kv) (snd kv) m) data merged"

definition dict_of :: "(string \<times> string) list \<Rightarrow> (string \<times> string) list" where
  "dict_of members = dict_update [] members"

definition read_sstable :: "(string \<times> sst_file) list \<Rightarrow> string \<Rightarrow> (string \<times> string) list option" where
  "read_sstable d p = (case map_of d p of Some (Table t) \<Rightarrow> Some (dict_of t) | _ \<Rightarrow> None)"

fun get_sstables :: "(string \<times> sst_file) list \<Rightarrow> string list \<Rightarrow> string \<Rightarrow> string option" where
  "get_sstables d [] key = None"
| "get_sstables d (p # ps) key =
     (case read_sstable d p of
        None \<Rightarrow> get_sstables d ps key
      | Some data \<Rightarrow>
          (case map_of data key of
             Some v \<Rightarrow> Some v
           | None \<Rightarrow> get_sstables d ps key))"

definition lsm_get :: "string \<Rightarrow> lsm \<Rightarrow> string option" where
  "lsm_get key s =
     (case map_of (memtable s) key of
        Some v \<Rightarrow> Some v
      | None \<Rightarrow> get_sstables (disk s) (sstables s) key)"

definition in_range :: "string \<Rightarrow> string \<Rightarrow> string \<times> string \<Rightarrow> bool" where
  "in_range start_key end_key kv = (start_key \<le> fst kv \<and> fst kv \<le> end_key)"

fun range_sstables ::
  "(string \<times> sst_file) list \<Rightarrow> string list \<Rightarrow> string \<Rightarrow> string \<Rightarrow> (string \<times> string) list" where
  "range_sstables d [] start_key end_key = []"
| "range_sstables d (p # ps) start_key end_key =
     (case read_sstable d p of
        None \<Rightarrow> []
      | Some data \<Rightarrow> filter (in_range start_key end_key) data)
     @ range_sstables d ps start_key end_key"

definition lsm_range_query :: "string \<Rightarrow> string \<Rightarrow> lsm \<Rightarrow> (string \<times> string) list" where
  "lsm_range_query start_key end_key s =
     filter (in_range start_key end_key) (memtable s)
     @ range_sstables (disk s) (sstables s) start_key end_key"

subsection \<open>compact\<close>

fun merge_sstables ::
  "(string \<times> sst_file) list \<Rightarrow> string list \<Rightarrow> (string \<times> string) list \<Rightarrow> (string \<times> string) list" where
  "merge_sstables d [] merged = merged"
| "merge_sstables d (p # ps) merged =
     merge_sstables d ps
       (case read_sstable d p of None \<Rightarrow> merged | Some data \<Rightarrow> dict_update merged data)"

fun remove_files :: "io_env \<Rightarrow> string list \<Rightarrow> (string \<times> sst_file) list \<Rightarrow> (string \<times> sst_file) list" where
  "remove_files io [] d = d"
| "remove_files io (p # ps) d =
     remove_files io ps (if remove_ok io p then AList.delete p d else d)"

definition lsm_compact :: "io_env \<Rightarrow> lsm \<Rightarrow> error option \<times> lsm" where
  "lsm_compact io s =
     (if length (sstables s) \<le> 1 then (None, s)
      else
        let merged = merge_sstables (disk s) (rev (sstables s)) [];
            new_sstable = compact_name (sstable_dir s) (now_ms io)
        in if \<not> sst_write_ok io
           then (Some (IOError ''''), s\<lparr> disk := torn_write io new_sstable (disk s) \<rparr>)
           else (None,
             s\<lparr> disk := remove_files io (sstables s)
                         (AList.update new_sstable (Table merged) (disk s)),
                sstables := [new_sstable] \<rparr>))"

subsection \<open>Construction: WAL recovery and loading the snapshot list\<close>

text \<open>
  \<open>for line in f\<close> reads the file in text mode with universal newlines, so a line ends at
  \<open>\n\<close>, \<open>\r\<close> or \<open>\r\n\<close>. The model cuts the text at every such character; the empty
  pieces this adds (after the final newline, inside \<open>\r\n\<close>) hold no colon and are skipped
  like any malformed line, and \<open>strip()\<close> removes the terminator Python leaves on a line.
\<close>

definition is_newline :: "char \<Rightarrow> bool" where
  "is_newline c = (c = CHR 0x0A \<or> c = CHR 0x0D)"

text \<open>\<open>str.isspace\<close> on the code points below 256.\<close>

definition is_space :: "char \<Rightarrow> bool" where
  "is_space c = (c \<in> set [CHR 0x09, CHR 0x0A, CHR 0x0B, CHR 0x0C, CHR 0x0D, CHR 0x1C,
      CHR 0x1D, CHR 0x1E, CHR 0x1F, CHR 0x20, CHR 0x85, CHR 0xA0])"

fun split_on :: "(char \<Rightarrow> bool) \<Rightarrow> string \<Rightarrow> string list" where
  "split_on P [] = [[]]"
| "split_on P (c # cs) =
     (if P c then [] # split_on P cs
      else (case split_on P cs of [] \<Rightarrow> [[c]] | l # ls \<Rightarrow> (c # l) # ls))"

definition py_strip :: "string \<Rightarrow> string" where
  "py_strip s = rev (dropWhile is_space (rev (dropWhile is_space s)))"

text \<open>
  \<open>key, value = line.split(':', 1)\<close>: without a colon the split has one element and the
  unpacking raises \<open>ValueError\<close> (\<open>None\<close> here).
\<close>

definition split_colon :: "string \<Rightarrow> (string \<times> string) option" where
  "split_colon s =
     (if CHR '':'' \<in> set s
      then Some (takeWhile (\<lambda>c. c \<noteq> CHR '':'') s, tl (dropWhile (\<lambda>c. c \<noteq> CHR '':'') s))
      else None)"

definition replay_line :: "string \<Rightarrow> (string \<times> string) list \<Rightarrow> (string \<times> string) list" where
  "replay_line line m =
     (case split_colon (py_strip line) of
        None \<Rightarrow> m
      | Some (key, val) \<Rightarrow> AList.update key val m)"

definition recover_from_wal :: "io_env \<Rightarrow> lsm \<Rightarrow> lsm" where
  "recover_from_wal io s =
     (case wal_log s of
        None \<Rightarrow> s
      | Some txt \<Rightarrow>
          if \<not> wal_read_ok io then s
          else s\<lparr> memtable := fold replay_line (split_on is_newline txt) (memtable s) \<rparr>)"

text \<open>
  \<open>glob.glob(os.path.join(sstable_dir, 'sstable_*.json'))\<close>: the files directly in the
  directory whose name starts with \<open>sstable_\<close> and ends with \<open>.json\<close> (the directory name
  is taken to hold no glob metacharacter). \<open>sorted(..., reverse=True)\<close> orders the paths as
  strings, descending.
\<close>

definition strip_prefix :: "string \<Rightarrow> string \<Rightarrow> string option" where
  "strip_prefix pre s =
     (if take (length pre) s = pre then Some (drop (length pre) s) else None)"

definition glob_match :: "string \<Rightarrow> string \<Rightarrow> bool" where
  "glob_match d p =
     (case strip_prefix (path_join d []) p of
        None \<Rightarrow> False
      | Some b \<Rightarrow>
          CHR ''/'' \<notin> set b \<and> 13 \<le> length b \<and> take 8 b = ''sstable_''
          \<and> drop (length b - 5) b = ''.json'')"

definition load_existing_sstables :: "lsm \<Rightarrow> lsm" where
  "load_existing_sstables s =
     s\<lparr> sstables := rev (sort (filter (glob_match (sstable_dir s)) (map fst (disk s)))) \<rparr>"

text \<open>
  \<open>LSMTree(max_memtable_size, sstable_dir)\<close> over a storage holding the WAL \<open>w\<close> and the
  files \<open>d\<close>. Creating the directory changes nothing the model records.
\<close>

definition lsm_init ::
  "io_env \<Rightarrow> int \<Rightarrow> string \<Rightarrow> string option \<Rightarrow> (string \<times> sst_file) list \<Rightarrow> lsm" where
  "lsm_init io max_size dir w d =
     load_existing_sstables (recover_from_wal io
       \<lparr> memtable = [], sstables = [], max_memtable_size = max_size, sstable_dir = dir,
          wal_log = w, disk = d \<rparr>)"

text \<open>A fresh engine object over the storage another engine object leaves behind.\<close>

definition reopen :: "io_env \<Rightarrow> lsm \<Rightarrow> lsm" where
  "reopen io s = lsm_init io (max_memtable_size s) (sstable_dir s) (wal_log s) (disk s)"

text \<open>
  A caller issuing inserts one after the other, each with what the operating system
  answers during it; the first exception ends the run.
\<close>

fun insert_all :: "(io_env \<times> string \<times> string) list \<Rightarrow> lsm \<Rightarrow> error option \<times> lsm" where
  "insert_all [] s = (None, s)"
| "insert_all ((io, key, val) # rest) s =
     (case lsm_insert io key val s of
        (Some e, s') \<Rightarrow> (Some e, s')
      | (None, s') \<Rightarrow> insert_all rest s')"

text \<open>An operating system on which every call succeeds, at clock reading \<open>t\<close>.\<close>

definition io_ok :: "nat \<Rightarrow> io_env" where
  "io_ok t = \<lparr> now_ms = t, wal_append_ok = True, wal_read_ok = True, sst_write_ok = True,
     remove_ok = (\<lambda>p. True), wal_torn = None, sst_torn = None \<rparr>"




definition fresh5 :: lsm where
  "fresh5 = lsm_init (io_ok 0) 5 ''sstables'' None []"

text \<open>
  Engines reached by the operations themselves, with a threshold of 2: \<open>overwritten\<close> has
  flushed \<open>b\<close> and \<open>a\<close> and then taken a new value for \<open>a\<close> into the memtable; \<open>two_runs\<close>
  has flushed a second time; \<open>compacted\<close> has merged the two snapshots; and
  \<open>flushed_after_compaction\<close> has flushed once more after that.
\<close>

definition fresh2 :: lsm where
  "fresh2 = lsm_init (io_ok 0) 2 ''sstables'' None []"

definition overwritten :: lsm where
  "overwritten = snd (insert_all
     [(io_ok 1700000000001, ''b'', ''1''), (io_ok 1700000000002, ''a'', ''old''),
      (io_ok 1700000000003, ''a'', ''new'')] fresh2)"

definition two_runs :: lsm where
  "two_runs = snd (insert_all [(io_ok 1700000000004, ''c'', ''3'')] overwritten)"

definition compacted :: lsm where
  "compacted = snd (lsm_compact (io_ok 1700000000005) two_runs)"

definition flushed_after_compaction :: lsm where
  "flushed_after_compaction = snd (insert_all
     [(io_ok 1700000000006, ''a'', ''newest''), (io_ok 1700000000007, ''d'', ''4'')] compacted)"

text \<open>
  What the WAL format can carry: \<open>wal_safe key val\<close> says that the key holds no colon,
  that neither string holds a line break, and that the line \<open>key:value\<close> neither starts nor
  ends with white space. \<open>wal_replay w\<close> is the memtable a fresh engine builds from the WAL
  \<open>w\<close>; \<open>wal_closed w\<close> says that the WAL is empty or ends with a line break.
\<close>

definition wal_safe :: "string \<Rightarrow> string \<Rightarrow> bool" where
  "wal_safe key val =
     (CHR '':'' \<notin> set key \<and> (\<forall>c\<in>set (key @ val). \<not> is_newline c)
      \<and> (key \<noteq> [] \<longrightarrow> \<not> is_space (hd key)) \<and> (val \<noteq> [] \<longrightarrow> \<not> is_space (last val)))"

definition wal_replay :: "string option \<Rightarrow> (string \<times> string) list" where
  "wal_replay w = fold replay_line (split_on is_newline (wal_text w)) []"

definition wal_closed :: "string option \<Rightarrow> bool" where
  "wal_closed w = (wal_text w = [] \<or> is_newline (last (wal_text w)))"

definition wal_consistent :: "lsm \<Rightarrow> bool" where
  "wal_consistent s = (memtable s = wal_replay (wal_log s) \<and> wal_closed (wal_log s))"

text \<open>A run before a crash: a key written twice, and a value that holds a colon.\<close>

definition crash_ops :: "(io_env \<times> string \<times> string) list" where
  "crash_ops = [(io_ok 1700000000001, ''k'', ''v1''), (io_ok 1700000000002, ''x y'', ''a:b''),
     (io_ok 1700000000003, ''k'', ''v2'')]"

section \<open>The in-memory LSM engine of \<^verbatim>\<open>app.py\<close>\<close>

text \<open>
  The \<open>LSMTree\<close> class of \<open>app.py\<close> keeps everything in memory: the memtable is a dict,
  a flush appends a copy of it to the list \<open>sstables\<close> (oldest first), and \<open>delete\<close> stores
  \<open>None\<close> as the value. A value is therefore a \<open>string option\<close>, \<open>None\<close> being Python's
  \<open>None\<close>; dicts are item lists as before.
\<close>

record mem_lsm =
  mem_memtable :: "(string \<times> string option) list"
  mem_sstables :: "(string \<times> string option) list list"
  mem_max_size :: int

definition mem_flush_to_disk :: "mem_lsm \<Rightarrow> mem_lsm" where
  "mem_flush_to_disk s =
     s\<lparr> mem_sstables := mem_sstables s @ [mem_memtable s], mem_memtable := [] \<rparr>"

text \<open>\<open>insert\<close> and \<open>delete\<close> differ in the value they store only.\<close>

definition mem_put :: "string \<Rightarrow> string option \<Rightarrow> mem_lsm \<Rightarrow> mem_lsm" where
  "mem_put key val s =
     (let s1 = s\<lparr> mem_memtable := AList.update key val (mem_memtable s) \<rparr>
      in if int (length (mem_memtable s1)) \<ge> mem_max_size s1 then mem_flush_to_disk s1 else s1)"

definition mem_insert :: "string \<Rightarrow> string \<Rightarrow> mem_lsm \<Rightarrow> mem_lsm" where
  "mem_insert key val s = mem_put key (Some val) s"

definition mem_delete :: "string \<Rightarrow> mem_lsm \<Rightarrow> mem_lsm" where
  "mem_delete key s = mem_put key None s"

text \<open>
  \<open>mem_find\<close> is the loop of \<open>get\<close> over \<open>reversed(self.sstables)\<close>; it yields the value
  stored for the key in the first dict that has it, which may be \<open>None\<close>.
\<close>

fun mem_find :: "(string \<times> string option) list list \<Rightarrow> string \<Rightarrow> string option option" where
  "mem_find [] key = None"
| "mem_find (t # ts) key =
     (case map_of t key of Some v \<Rightarrow> Some v | None \<Rightarrow> mem_find ts key)"

definition mem_get :: "string \<Rightarrow> mem_lsm \<Rightarrow> string option" where
  "mem_get key s =
     (case map_of (mem_memtable s) key of
        Some v \<Rightarrow> v
      | None \<Rightarrow> (case mem_find (rev (mem_sstables s)) key of Some v \<Rightarrow> v | None \<Rightarrow> None))"

text \<open>
  \<open>range_query\<close> fills a result dict from the memtable and then, skipping the keys it
  already has, from the flushed dicts, newest first.
\<close>

definition in_bounds :: "string \<Rightarrow> string \<Rightarrow> string \<Rightarrow> bool" where
  "in_bounds start_key end_key key = (start_key \<le> key \<and> key \<le> end_key)"

definition take_memtable ::
  "string \<Rightarrow> string \<Rightarrow> (string \<times> string option) list \<Rightarrow> (string \<times> string option) list
   \<Rightarrow> (string \<times> string option) list" where
  "take_memtable start_key end_key items result =
     fold (\<lambda>kv r. if in_bounds start_key end_key (fst kv)
                    then AList.update (fst kv) (snd kv) r else r) items result"

definition take_sstable ::
  "string \<Rightarrow> string \<Rightarrow> (string \<times> string option) list \<Rightarrow> (string \<times> string option) list
   \<Rightarrow> (string \<times> string option) list" where
  "take_sstable start_key end_key items result =
     fold (\<lambda>kv r. if in_bounds start_key end_key (fst kv) \<and> map_of r (fst kv) = None
                    then AList.update (fst kv) (snd kv) r else r) items result"

definition mem_range_query :: "string \<Rightarrow> string \<Rightarrow> mem_lsm \<Rightarrow> (string \<times> string option) list" where
  "mem_range_query start_key end_key s =
     fold (take_sstable start_key end_key) (rev (mem_sstables s))
       (take_memtable start_key end_key (mem_memtable s) [])"

text \<open>
  What the newest source holding a key stores for it: the memtable if it has the key,
  else the most recently flushed dict that has it.
\<close>

definition mem_newest :: "string \<Rightarrow> mem_lsm \<Rightarrow> string option option" where
  "mem_newest key s =
     (case map_of (mem_memtable s) key of
        Some v \<Rightarrow> Some v
      | None \<Rightarrow> mem_find (rev (mem_sstables s)) key)"

text \<open>An in-memory engine that has taken \<open>b\<close> and then \<open>a\<close> into its memtable.\<close>

definition mem_example :: mem_lsm where
  "mem_example = mem_insert ''a'' ''2'' (mem_insert ''b'' ''1''
     \<lparr> mem_memtable = [], mem_sstables = [], mem_max_size = 1000 \<rparr>)"

section \<open>The B+Tree of \<^verbatim>\<open>bplus_tree.py\<close>\<close>

text \<open>
  A \<open>Node\<close> object has the fields \<open>keys\<close>, \<open>values\<close>, \<open>children\<close>, \<open>is_leaf\<close> and \<open>next\<close>
  (\<open>vals\<close> and \<open>nxt\<close> here). A parent owns its children, so a tree of objects is a tree
  of values; the one non-owning reference, \<open>next\<close>, is the identity of the object it points
  to. Identities are numbers: \<open>nid\<close> is the identity of a node, every \<open>Node(...)\<close> call takes
  the next unused number, and the tree records that number as \<open>next_id\<close>. Keys are of any
  linearly ordered type.
\<close>

datatype ('k, 'v) node =
  Node (nid: nat) (keys: "'k list") (vals: "'v list") (children: "('k, 'v) node list")
    (is_leaf: bool) (nxt: "nat option")

record ('k, 'v) bplus_tree =
  root :: "('k, 'v) node"
  degree :: int
  min_keys :: int
  max_keys :: int
  next_id :: nat

text \<open>\<open>BPlusTree(degree)\<close>.\<close>

definition new_tree :: "int \<Rightarrow> ('k, 'v) bplus_tree" where
  "new_tree d = \<lparr> root = Node 0 [] [] [] True None, degree = d, min_keys = d - 1,
     max_keys = 2 * d - 1, next_id = 1 \<rparr>"

text \<open>
  The two scanning loops, \<open>while index < len(keys) and key > keys[index]: index += 1\<close> and
  the same with \<open>>=\<close>, as recursions over the keys that remain.
\<close>

fun scan_gt :: "'k::linorder \<Rightarrow> 'k list \<Rightarrow> nat" where
  "scan_gt key [] = 0"
| "scan_gt key (x # xs) = (if key > x then Suc (scan_gt key xs) else 0)"

fun scan_ge :: "'k::linorder \<Rightarrow> 'k list \<Rightarrow> nat" where
  "scan_ge key [] = 0"
| "scan_ge key (x # xs) = (if key \<ge> x then Suc (scan_ge key xs) else 0)"

text \<open>
  \<open>list.insert(i, x)\<close> (an index beyond the end appends), \<open>list.pop(i)\<close> and
  \<open>list.index(x)\<close> for indices and elements that are in range.
\<close>

definition list_insert :: "nat \<Rightarrow> 'a \<Rightarrow> 'a list \<Rightarrow> 'a list" where
  "list_insert i x xs = take i xs @ [x] @ drop i xs"

definition list_pop :: "nat \<Rightarrow> 'a list \<Rightarrow> 'a list" where
  "list_pop i xs = take i xs @ drop (Suc i) xs"

definition list_index :: "'a \<Rightarrow> 'a list \<Rightarrow> nat" where
  "list_index x xs = length (takeWhile (\<lambda>y. y \<noteq> x) xs)"

text \<open>
  \<open>_split_child(parent, index)\<close>; \<open>fresh\<close> is the identity of the node it creates.
  \<open>parent.children[index]\<close> and \<open>child.keys[split_point]\<close> raise \<open>IndexError\<close> out of range.
\<close>

definition split_child ::
  "nat \<Rightarrow> ('k, 'v) node \<Rightarrow> nat \<Rightarrow> error + ('k, 'v) node" where
  "split_child fresh parent index =
     (if length (children parent) \<le> index then Inl IndexError
      else
        let child = children parent ! index;
            split_point = length (keys child) div 2
        in if length (keys child) \<le> split_point then Inl IndexError
           else
             let middle_key = keys child ! split_point;
                 new_node =
                   (if is_leaf child
                    then Node fresh (drop split_point (keys child))
                           (drop split_point (vals child)) [] True (nxt child)
                    else Node fresh (drop (split_point + 1) (keys child)) []
                           (drop (split_point + 1) (children child)) False None);
                 child' =
                   (if is_leaf child
                    then Node (nid child) (take split_point (keys child))
                           (take split_point (vals child)) (children child) True (Some fresh)
                    else Node (nid child) (take split_point (keys child)) (vals child)
                           (take (split_point + 1) (children child)) False (nxt child))
             in Inr (Node (nid parent) (list_insert index middle_key (keys parent))
                       (vals parent)
                       (list_insert (index + 1) new_node ((children parent)[index := child']))
                       (is_leaf parent) (nxt parent)))"

text \<open>\<open>_search\<close>, \<open>_insert_non_full\<close> and \<open>_delete\<close> descend into a child: they terminate.\<close>

lemma size_nth_children:
  "i < length cs \<Longrightarrow> size (cs ! i) < Suc (size_list size cs)"
  by (metis less_Suc_eq_le nth_mem size_list_estimation' order_refl)

function search :: "('k::linorder, 'v) node \<Rightarrow> 'k \<Rightarrow> error + 'v option" where
  "search node key =
     (if is_leaf node then
        let index = scan_gt key (keys node) in
        if index < length (keys node) \<and> key = keys node ! index
        then (if index < length (vals node) then Inr (Some (vals node ! index))
              else Inl IndexError)
        else Inr None
      else
        let index = scan_ge key (keys node) in
        if index < length (children node) then search (children node ! index) key
        else Inl IndexError)"
  by pat_completeness auto
termination
  apply (relation "measure (\<lambda>(n, k). size n)")
   apply simp
  subgoal for node key index
    using size_nth_children [of "scan_ge key (keys node)" "children node"]
    by (cases node) auto
  done

declare search.simps [simp del]

lemma size_list_take: "size_list f (take n xs) \<le> size_list f xs"
proof (induction xs arbitrary: n)
  case Nil
  then show ?case by simp
next
  case (Cons x xs)
  then show ?case by (cases n) (auto intro: le_SucI trans_le_add2)
qed

lemma size_list_drop: "size_list f (drop n xs) \<le> size_list f xs"
proof (induction xs arbitrary: n)
  case Nil
  then show ?case by simp
next
  case (Cons x xs)
  then show ?case by (cases n) (auto intro: le_SucI trans_le_add2)
qed

lemma split_child_children:
  assumes "split_child fresh parent index = Inr parent'"
  shows "index < length (children parent)
     \<and> size (children parent' ! index) \<le> size (children parent ! index)
     \<and> size (children parent' ! Suc index) \<le> size (children parent ! index)"
proof -
  let ?child = "children parent ! index"
  have i: "index < length (children parent)"
    using assms by (auto simp: split_child_def split: if_splits)
  obtain a ks vs cs l n where c: "?child = Node a ks vs cs l n" by (cases ?child) auto
  have t: "size_list size (take m cs) \<le> size_list size cs"
    and d: "size_list size (drop m cs) \<le> size_list size cs" for m
    by (rule size_list_take, rule size_list_drop)
  show ?thesis
    using assms i c t [of "Suc (length ks div 2)"] d [of "Suc (length ks div 2)"]
    by (auto simp: split_child_def Let_def list_insert_def nth_append split: if_splits)
qed

function insert_non_full ::
  "int \<Rightarrow> nat \<Rightarrow> ('k::linorder, 'v) node \<Rightarrow> 'k \<Rightarrow> 'v \<Rightarrow> error + (('k, 'v) node \<times> nat)" where
  "insert_non_full maxk fresh node key val =
     (if is_leaf node then
        let index = scan_gt key (keys node) in
        Inr (Node (nid node) (list_insert index key (keys node))
               (list_insert index val (vals node)) (children node) (is_leaf node) (nxt node),
             fresh)
      else
        let index = scan_gt key (keys node) in
        if length (children node) \<le> index then Inl IndexError
        else if int (length (keys (children node ! index))) = maxk then
          (case split_child fresh node index of
             Inl e \<Rightarrow> Inl e
           | Inr node' \<Rightarrow>
               let index' = (if key > keys node' ! index then index + 1 else index) in
               (case insert_non_full maxk (fresh + 1) (children node' ! index') key val of
                  Inl e \<Rightarrow> Inl e
                | Inr (c, fresh') \<Rightarrow>
                    Inr (Node (nid node') (keys node') (vals node')
                           ((children node')[index' := c]) (is_leaf node') (nxt node'),
                         fresh')))
        else
          (case insert_non_full maxk fresh (children node ! index) key val of
             Inl e \<Rightarrow> Inl e
           | Inr (c, fresh') \<Rightarrow>
               Inr (Node (nid node) (keys node) (vals node)
                      ((children node)[index := c]) (is_leaf node) (nxt node),
                    fresh')))"
  by pat_completeness auto
termination
proof (relation "measure (\<lambda>(m, f, n, k, v). size n)", goal_cases)
  case 1
  then show ?case by simp
next
  case (2 maxk fresh node key val index node' index')
  then have "size (children node' ! index') \<le> size (children node ! index)"
    using split_child_children [of fresh node index node'] by (auto split: if_splits)
  moreover have "size (children node ! index) < size node"
    using 2 size_nth_children [of index "children node"] by (cases node) auto
  ultimately show ?case by simp
next
  case (3 maxk fresh node key val index)
  then show ?case
    using size_nth_children [of index "children node"] by (cases node) auto
qed

declare insert_non_full.simps [simp del]

text \<open>
  \<open>insert\<close>, \<open>get\<close> and \<open>delete\<close> of the tree. \<open>_insert_non_full\<close> above returns the node
  as changed together with the next unused identity.
\<close>

definition bpt_insert ::
  "('k::linorder, 'v) bplus_tree \<Rightarrow> 'k \<Rightarrow> 'v \<Rightarrow> error + ('k, 'v) bplus_tree" where
  "bpt_insert t key val =
     (if int (length (keys (root t))) = max_keys t then
        let new_root = Node (next_id t) [] [] [root t] False None in
        (case split_child (next_id t + 1) new_root 0 of
           Inl e \<Rightarrow> Inl e
         | Inr new_root' \<Rightarrow>
             (case insert_non_full (max_keys t) (next_id t + 2) new_root' key val of
                Inl e \<Rightarrow> Inl e
              | Inr (r, fresh') \<Rightarrow> Inr (t\<lparr> root := r, next_id := fresh' \<rparr>)))
      else
        (case insert_non_full (max_keys t) (next_id t) (root t) key val of
           Inl e \<Rightarrow> Inl e
         | Inr (r, fresh') \<Rightarrow> Inr (t\<lparr> root := r, next_id := fresh' \<rparr>)))"

definition bpt_get :: "('k::linorder, 'v) bplus_tree \<Rightarrow> 'k \<Rightarrow> error + 'v option" where
  "bpt_get t key = search (root t) key"

definition delete_from_leaf :: "('k, 'v) node \<Rightarrow> 'k \<Rightarrow> error + ('k, 'v) node" where
  "delete_from_leaf node key =
     (if key \<in> set (keys node) then
        let index = list_index key (keys node) in
        if index < length (vals node)
        then Inr (Node (nid node) (list_pop index (keys node)) (list_pop index (vals node))
                    (children node) (is_leaf node) (nxt node))
        else Inl IndexError
      else Inl KeyError)"

text \<open>
  \<open>_delete_internal_key\<close> and \<open>_fix_child\<close> are \<open>pass\<close> in the source: they leave the node
  as it is. \<open>delete_node\<close> is \<open>_delete\<close> with \<open>_delete_from_internal\<close> written in place.
\<close>

definition delete_internal_key :: "('k, 'v) node \<Rightarrow> nat \<Rightarrow> ('k, 'v) node" where
  "delete_internal_key node index = node"

definition fix_child :: "('k, 'v) node \<Rightarrow> nat \<Rightarrow> ('k, 'v) node" where
  "fix_child node index = node"

function delete_node :: "int \<Rightarrow> ('k::linorder, 'v) node \<Rightarrow> 'k \<Rightarrow> error + ('k, 'v) node" where
  "delete_node mink node key =
     (if is_leaf node then delete_from_leaf node key
      else
        let index = scan_gt key (keys node) in
        if index < length (keys node) \<and> key = keys node ! index
        then Inr (delete_internal_key node index)
        else if length (children node) \<le> index then Inl IndexError
        else
          let child = children node ! index;
              node1 = (if int (length (keys child)) = mink then fix_child node index else node);
              index1 = (if int (length (keys child)) = mink \<and> index > length (keys node1)
                        then index - 1 else index)
          in (case delete_node mink child key of
                Inl e \<Rightarrow> Inl e
              | Inr child' \<Rightarrow>
                  Inr (Node (nid node1) (keys node1) (vals node1)
                         ((children node1)[index := child']) (is_leaf node1) (nxt node1))))"
  by pat_completeness auto
termination
proof (relation "measure (\<lambda>(m, n, k). size n)", goal_cases)
  case 1
  then show ?case by simp
next
  case (2 mink node key index child node1 index1)
  then show ?case
    using size_nth_children [of index "children node"] by (cases node) auto
qed

declare delete_node.simps [simp del]

definition bpt_delete ::
  "('k::linorder, 'v) bplus_tree \<Rightarrow> 'k \<Rightarrow> error + ('k, 'v) bplus_tree" where
  "bpt_delete t key =
     (case delete_node (min_keys t) (root t) key of
        Inl e \<Rightarrow> Inl e
      | Inr r \<Rightarrow>
          Inr (t\<lparr> root := (if \<not> is_leaf r \<and> length (children r) = 1
                             then children r ! 0 else r) \<rparr>))"

text \<open>A caller inserting pairs one after the other; the first exception ends the run.\<close>

fun insert_each ::
  "('k::linorder, 'v) bplus_tree \<Rightarrow> ('k \<times> 'v) list \<Rightarrow> error + ('k, 'v) bplus_tree" where
  "insert_each t [] = Inr t"
| "insert_each t ((key, val) # kvs) =
     (case bpt_insert t key val of Inl e \<Rightarrow> Inl e | Inr t' \<Rightarrow> insert_each t' kvs)"

text \<open>
  The leaves of a tree from left to right, and what it means for such a sequence to be
  chained by the sibling links.
\<close>

fun leaves :: "('k, 'v) node \<Rightarrow> ('k, 'v) node list" where
  "leaves (Node i ks vs cs leaf n) =
     (if leaf then [Node i ks vs cs leaf n] else concat (map leaves cs))"

fun chain_linked :: "('k, 'v) node list \<Rightarrow> bool" where
  "chain_linked [] = True"
| "chain_linked [x] = True"
| "chain_linked (x # y # zs) = (nxt x = Some (nid y) \<and> chain_linked (y # zs))"

text \<open>
  The keys stored in the leaves of a tree, the separator keys stored in its internal
  nodes, and the shape of the nodes: a leaf has one value for each key, an internal node
  one child more than keys.
\<close>

fun leaf_keys :: "('k, 'v) node \<Rightarrow> 'k set" where
  "leaf_keys (Node i ks vs cs leaf n) = (if leaf then set ks else (\<Union>c\<in>set cs. leaf_keys c))"

fun sep_keys :: "('k, 'v) node \<Rightarrow> 'k set" where
  "sep_keys (Node i ks vs cs leaf n) =
     (if leaf then {} else set ks \<union> (\<Union>c\<in>set cs. sep_keys c))"

fun well_formed :: "('k, 'v) node \<Rightarrow> bool" where
  "well_formed (Node i ks vs cs leaf n) =
     (if leaf then length vs = length ks
      else length cs = Suc (length ks) \<and> (\<forall>c\<in>set cs. well_formed c))"

text \<open>
  The keys of a tree read from left to right, every separator between the two subtrees
  it separates. For the keys \<open>k0, k1, ...\<close> and the key sequences \<open>c0, c1, ...\<close> of the
  children, \<open>weave\<close> is \<open>c0 @ k0 # c1 @ k1 # ... @ cn\<close>; \<open>weave_left\<close> is the part of it
  in front of a child, \<open>c0 @ k0 # ... @ [k]\<close>, and \<open>weave_right\<close> the part behind one,
  \<open>k # c @ ...\<close>.
\<close>

fun weave_left :: "'a list \<Rightarrow> 'a list list \<Rightarrow> 'a list" where
  "weave_left (k # ks) (c # cs) = c @ k # weave_left ks cs"
| "weave_left ks cs = []"

fun weave_right :: "'a list \<Rightarrow> 'a list list \<Rightarrow> 'a list" where
  "weave_right (k # ks) (c # cs) = k # c @ weave_right ks cs"
| "weave_right ks cs = []"

definition weave :: "'a list \<Rightarrow> 'a list list \<Rightarrow> 'a list" where
  "weave ks cs = (case cs of [] \<Rightarrow> [] | c # cs' \<Rightarrow> c @ weave_right ks cs')"

fun inorder :: "('k, 'v) node \<Rightarrow> 'k list" where
  "inorder (Node i ks vs cs leaf n) = (if leaf then ks else weave ks (map inorder cs))"

text \<open>
  The invariant of a tree: its nodes are well formed, its keys ascend from left to right,
  every separator is also the key of a leaf entry, and \<open>max_keys\<close> is not zero (it is
  odd). \<open>grows\<close> relates a subtree to what \<open>_insert_non_full\<close> makes of it, \<open>shrinks\<close> to
  what \<open>_delete\<close> makes of it when it removes an entry.
\<close>

definition tree_inv :: "('k::linorder, 'v) bplus_tree \<Rightarrow> bool" where
  "tree_inv t = (well_formed (root t) \<and> sorted (inorder (root t))
     \<and> sep_keys (root t) \<subseteq> leaf_keys (root t) \<and> max_keys t \<noteq> 0)"

definition grows :: "'k::linorder \<Rightarrow> ('k, 'v) node \<Rightarrow> ('k, 'v) node \<Rightarrow> bool" where
  "grows key node node' =
     (well_formed node' \<and> sorted (inorder node')
      \<and> set (inorder node') \<subseteq> insert key (set (inorder node))
      \<and> leaf_keys node \<subseteq> leaf_keys node'
      \<and> sep_keys node' \<subseteq> sep_keys node \<union> leaf_keys node)"

definition shrinks :: "'k::linorder \<Rightarrow> ('k, 'v) node \<Rightarrow> ('k, 'v) node \<Rightarrow> bool" where
  "shrinks key node node' =
     (well_formed node' \<and> sorted (inorder node')
      \<and> set (inorder node') \<subseteq> set (inorder node)
      \<and> leaf_keys node - {key} \<subseteq> leaf_keys node'
      \<and> sep_keys node' = sep_keys node \<and> key \<notin> sep_keys node)"

text \<open>
  A caller making \<open>insert\<close> and \<open>delete\<close> calls one after the other and going on after a
  call that raised. \<open>run_ops\<close> keeps the tree of before a call that raises: on the trees
  it visits the only exception is the \<open>KeyError\<close> of \<open>_delete_from_leaf\<close>
  (lemma \<open>apply_op_inv\<close>), which is raised before any node has been changed.
\<close>

datatype ('k, 'v) tree_op = Insert 'k 'v | Delete 'k

definition apply_op ::
  "('k::linorder, 'v) bplus_tree \<Rightarrow> ('k, 'v) tree_op \<Rightarrow> error + ('k, 'v) bplus_tree" where
  "apply_op t c = (case c of Insert k v \<Rightarrow> bpt_insert t k v | Delete k \<Rightarrow> bpt_delete t k)"

fun run_ops ::
  "('k::linorder, 'v) bplus_tree \<Rightarrow> ('k, 'v) tree_op list \<Rightarrow> ('k, 'v) bplus_tree" where
  "run_ops t [] = t"
| "run_ops t (c # cs) =
     (case apply_op t c of Inl e \<Rightarrow> run_ops t cs | Inr t' \<Rightarrow> run_ops t' cs)"

text \<open>
  Trees of degree 3 over string keys. \<open>tree5\<close> holds the keys \<open>1\<close> to \<open>5\<close> in one full
  leaf; \<open>reinserted\<close> is \<open>tree5\<close> after inserting the key \<open>3\<close> once more; \<open>six_tree\<close> is
  \<open>tree5\<close> after inserting the key \<open>6\<close>; \<open>separator_only\<close> has the separator \<open>3\<close> in its
  root and the key \<open>3\<close> in no leaf.
\<close>

definition five :: "(string \<times> string) list" where
  "five = [(''1'', ''v1''), (''2'', ''v2''), (''3'', ''v3''), (''4'', ''v4''), (''5'', ''v5'')]"

definition full_leaf :: "(string, string) node" where
  "full_leaf = Node 0 [''1'', ''2'', ''3'', ''4'', ''5''] [''v1'', ''v2'', ''v3'', ''v4'', ''v5'']
     [] True None"

definition tree5 :: "(string, string) bplus_tree" where
  "tree5 = \<lparr> root = full_leaf, degree = 3, min_keys = 2, max_keys = 5, next_id = 1 \<rparr>"

definition reinserted :: "(string, string) bplus_tree" where
  "reinserted = \<lparr> root = Node 1 [''3''] []
       [Node 0 [''1'', ''2'', ''3''] [''v1'', ''v2'', ''new''] [] True (Some 2),
        Node 2 [''3'', ''4'', ''5''] [''v3'', ''v4'', ''v5''] [] True None] False None,
     degree = 3, min_keys = 2, max_keys = 5, next_id = 3 \<rparr>"

definition six_tree :: "(string, string) bplus_tree" where
  "six_tree = \<lparr> root = Node 1 [''3''] []
       [Node 0 [''1'', ''2''] [''v1'', ''v2''] [] True (Some 2),
        Node 2 [''3'', ''4'', ''5'', ''6''] [''v3'', ''v4'', ''v5'', ''v6''] [] True None] False None,
     degree = 3, min_keys = 2, max_keys = 5, next_id = 3 \<rparr>"

definition separator_only :: "(string, string) bplus_tree" where
  "separator_only = \<lparr> root = Node 1 [''3''] []
       [Node 0 [''1'', ''2''] [''v1'', ''v2''] [] True (Some 2),
        Node 2 [''4'', ''5''] [''v4'', ''v5''] [] True None] False None,
     degree = 3, min_keys = 2, max_keys = 5, next_id = 3 \<rparr>"

text \<open>
  Nine calls on a new tree of degree 3: six inserts, \<open>delete(3)\<close> (a key equal to the
  separator in the root), \<open>delete(9)\<close> (a key that is not there) and \<open>delete(4)\<close>; and the
  tree they leave.
\<close>

definition calls :: "(string, string) tree_op list" where
  "calls = [Insert ''1'' ''v1'', Insert ''2'' ''v2'', Insert ''3'' ''v3'', Insert ''4'' ''v4'',
     Insert ''5'' ''v5'', Insert ''6'' ''v6'', Delete ''3'', Delete ''9'', Delete ''4'']"

definition after_calls :: "(string, string) bplus_tree" where
  "after_calls = \<lparr> root = Node 1 [''3''] []
       [Node 0 [''1'', ''2''] [''v1'', ''v2''] [] True (Some 2),
        Node 2 [''3'', ''5'', ''6''] [''v3'', ''v5'', ''v6''] [] True None] False None,
     degree = 3, min_keys = 2, max_keys = 5, next_id = 3 \<rparr>"

section \<open>Properties of the LSM engine\<close>

text \<open>The facts that evaluate the engine on concrete states.\<close>

lemmas lsm_eval =
  lsm_insert_def flush_memtable_def io_ok_def wal_text_def wal_line_def wal_file_def
  flush_name_def compact_name_def path_join_def str_nat.simps digit_char_def Let_def

lemmas init_eval =
  lsm_init_def recover_from_wal_def load_existing_sstables_def fresh5_def

text \<open>
  C6. When the append to the WAL fails, \<open>insert\<close> raises \<open>IOError\<close>, and the memtable and
  the SSTable list are exactly as before the call, whatever the failed append left in the
  WAL file.
\<close>

theorem insert_wal_failure_atomic:
  assumes "\<not> wal_append_ok io"
  shows "fst (lsm_insert io key val s) = Some (IOError ''Failed to write to WAL'')
     \<and> memtable (snd (lsm_insert io key val s)) = memtable s
     \<and> sstables (snd (lsm_insert io key val s)) = sstables s"
  using assms by (simp add: lsm_insert_def)

text \<open>A failed append that has written the first two characters of the line \<open>k:v\<close>.\<close>

theorem insert_wal_failure_atomic_witness:
  "\<not> wal_append_ok ((io_ok 7)\<lparr> wal_append_ok := False, wal_torn := Some 2 \<rparr>)
   \<and> lsm_insert ((io_ok 7)\<lparr> wal_append_ok := False, wal_torn := Some 2 \<rparr>) ''k'' ''v''
        \<lparr> memtable = [(''a'', ''1'')], sstables = [''sstables/sstable_5.json''],
           max_memtable_size = 2, sstable_dir = ''sstables'', wal_log = Some (wal_line ''a'' ''1''),
           disk = [(''sstables/sstable_5.json'', Table [(''k'', ''0'')])] \<rparr>
     = (Some (IOError ''Failed to write to WAL''),
        \<lparr> memtable = [(''a'', ''1'')], sstables = [''sstables/sstable_5.json''],
           max_memtable_size = 2, sstable_dir = ''sstables'',
           wal_log = Some (wal_line ''a'' ''1'' @ ''k:''),
           disk = [(''sstables/sstable_5.json'', Table [(''k'', ''0'')])] \<rparr>)"
proof -
  let ?io = "(io_ok 7)\<lparr> wal_append_ok := False, wal_torn := Some 2 \<rparr>"
  let ?s = "\<lparr> memtable = [(''a'', ''1'')], sstables = [''sstables/sstable_5.json''],
           max_memtable_size = 2, sstable_dir = ''sstables'', wal_log = Some (wal_line ''a'' ''1''),
           disk = [(''sstables/sstable_5.json'', Table [(''k'', ''0'')])] \<rparr>"
  have h: "\<not> wal_append_ok ?io" by (simp add: io_ok_def)
  have run: "snd (lsm_insert ?io ''k'' ''v'' ?s)
      = ?s\<lparr> wal_log := Some (wal_line ''a'' ''1'' @ ''k:'') \<rparr>"
    by (simp add: lsm_insert_def io_ok_def torn_append_def wal_text_def wal_line_def)
  from insert_wal_failure_atomic [OF h, of "''k''" "''v''" ?s] h run
  show ?thesis by (simp add: prod_eq_iff)
qed

text \<open>
  C10. With a threshold of at least one, every \<open>insert\<close> that returns without raising leaves
  strictly fewer entries in the memtable than the threshold, whatever the memtable held
  before; the threshold itself is never changed.
\<close>

theorem insert_memtable_bound:
  assumes "1 \<le> max_memtable_size s"
    and "lsm_insert io key val s = (None, s')"
  shows "int (length (memtable s')) < max_memtable_size s'
     \<and> max_memtable_size s' = max_memtable_size s"
  using assms
  by (auto simp: lsm_insert_def flush_memtable_def Let_def split: if_splits)

theorem insert_memtable_bound_witness:
  "(1::int) \<le> 2
   \<and> lsm_insert (io_ok 7) ''b'' ''2''
        \<lparr> memtable = [(''a'', ''1'')], sstables = [], max_memtable_size = 2,
           sstable_dir = ''sstables'', wal_log = Some ''a:1'', disk = [] \<rparr>
     = (None,
        \<lparr> memtable = [], sstables = [''sstables/sstable_7.json''], max_memtable_size = 2,
           sstable_dir = ''sstables'', wal_log = None,
           disk = [(''sstables/sstable_7.json'', Table [(''a'', ''1''), (''b'', ''2'')])] \<rparr>)
   \<and> int (length (memtable
        \<lparr> memtable = [], sstables = [''sstables/sstable_7.json''], max_memtable_size = 2,
           sstable_dir = ''sstables'', wal_log = None,
           disk = [(''sstables/sstable_7.json'', Table [(''a'', ''1''), (''b'', ''2'')])] \<rparr>))
       < (2::int)"
proof -
  let ?s = "\<lparr> memtable = [(''a'', ''1'')], sstables = [], max_memtable_size = 2,
           sstable_dir = ''sstables'', wal_log = Some ''a:1'', disk = [] \<rparr>"
  let ?s' = "\<lparr> memtable = [], sstables = [''sstables/sstable_7.json''], max_memtable_size = 2,
           sstable_dir = ''sstables'', wal_log = None,
           disk = [(''sstables/sstable_7.json'', Table [(''a'', ''1''), (''b'', ''2'')])] \<rparr>"
  have run: "lsm_insert (io_ok 7) ''b'' ''2'' ?s = (None, ?s')"
    by (simp add: lsm_eval)
  have "1 \<le> max_memtable_size ?s" by simp
  from insert_memtable_bound [OF this run] run show ?thesis by simp
qed

subsection \<open>Flush on reaching the threshold\<close>

lemma update_fresh: "k \<notin> fst ` set m \<Longrightarrow> AList.update k v m = m @ [(k, v)]"
  by (induction m) auto

lemma dict_update_distinct:
  "distinct (map fst (m @ t)) \<Longrightarrow> dict_update m t = m @ t"
proof (induction t arbitrary: m)
  case Nil
  then show ?case by (simp add: dict_update_def)
next
  case (Cons kv t)
  have "AList.update (fst kv) (snd kv) m = m @ [kv]"
    using Cons.prems by (simp add: update_fresh)
  moreover have "dict_update (m @ [kv]) t = (m @ [kv]) @ t"
    using Cons.prems by (intro Cons.IH) simp
  ultimately show ?case by (simp add: dict_update_def)
qed

lemma dict_of_distinct: "distinct (map fst t) \<Longrightarrow> dict_of t = t"
  using dict_update_distinct [of "[]" t] by (simp add: dict_of_def)


lemma insert_below_step:
  assumes "wal_append_ok io"
    and "int (length (AList.update key val (memtable s))) < max_memtable_size s"
  shows "lsm_insert io key val s = (None,
     s\<lparr> wal_log := Some (wal_text (wal_log s) @ wal_line key val),
        memtable := AList.update key val (memtable s) \<rparr>)"
  using assms by (simp add: lsm_insert_def Let_def)











subsection \<open>Range queries\<close>

lemma map_of_filter_in_range:
  "map_of (filter (in_range a b) xs) k = (if a \<le> k \<and> k \<le> b then map_of xs k else None)"
  by (induction xs) (auto simp: in_range_def)

lemma map_of_append_first:
  "map_of (xs @ ys) k = (case map_of xs k of None \<Rightarrow> map_of ys k | Some v \<Rightarrow> Some v)"
  by (simp add: map_add_def)

lemma map_of_range_sstables:
  "map_of (range_sstables d ps a b) k = (if a \<le> k \<and> k \<le> b then get_sstables d ps k else None)"
proof (induction ps)
  case Nil
  then show ?case by simp
next
  case (Cons p ps)
  show ?case
  proof (cases "read_sstable d p")
    case None
    then show ?thesis using Cons.IH by simp
  next
    case (Some data)
    then show ?thesis using Cons.IH
      by (simp only: range_sstables.simps get_sstables.simps option.case map_of_append_first
          map_of_filter_in_range split: option.split) auto
  qed
qed


lemmas mem_eval =
  mem_insert_def mem_put_def mem_flush_to_disk_def mem_range_query_def take_memtable_def
  take_sstable_def in_bounds_def Let_def

lemma mem_get_newest:
  "mem_get key s = (case mem_newest key s of Some v \<Rightarrow> v | None \<Rightarrow> None)"
  by (simp add: mem_get_def mem_newest_def split: option.splits)

lemma take_sstable_props:
  "distinct (map fst r) \<Longrightarrow>
   distinct (map fst (take_sstable a b items r))
   \<and> map_of (take_sstable a b items r) k
       = (case map_of r k of Some v \<Rightarrow> Some v
          | None \<Rightarrow> if in_bounds a b k then map_of items k else None)"
proof (induction items arbitrary: r)
  case Nil
  then show ?case by (simp add: take_sstable_def split: option.splits)
next
  case (Cons kv items)
  let ?r' = "if in_bounds a b (fst kv) \<and> map_of r (fst kv) = None
             then AList.update (fst kv) (snd kv) r else r"
  have step: "take_sstable a b (kv # items) r = take_sstable a b items ?r'"
    by (simp add: take_sstable_def)
  have d: "distinct (map fst ?r')" using Cons.prems by (simp add: distinct_update)
  note IH = Cons.IH [OF d]
  have m: "map_of ?r' k = (case map_of r k of Some v \<Rightarrow> Some v
          | None \<Rightarrow> if in_bounds a b k \<and> k = fst kv then Some (snd kv) else None)"
    by (auto simp: update_conv' split: option.splits)
  show ?case
    unfolding step using IH m
    by (cases kv) (auto split: option.splits if_splits)
qed

lemma take_memtable_props:
  "distinct (map fst items) \<Longrightarrow> distinct (map fst r) \<Longrightarrow>
   distinct (map fst (take_memtable a b items r))
   \<and> map_of (take_memtable a b items r) k
       = (case (if in_bounds a b k then map_of items k else None) of
            Some v \<Rightarrow> Some v | None \<Rightarrow> map_of r k)"
proof (induction items arbitrary: r)
  case Nil
  then show ?case by (simp add: take_memtable_def)
next
  case (Cons kv items)
  let ?r' = "if in_bounds a b (fst kv) then AList.update (fst kv) (snd kv) r else r"
  have step: "take_memtable a b (kv # items) r = take_memtable a b items ?r'"
    by (simp add: take_memtable_def)
  have d: "distinct (map fst ?r')" using Cons.prems by (simp add: distinct_update)
  have di: "distinct (map fst items)" using Cons.prems by simp
  note IH = Cons.IH [OF di d]
  have none: "map_of items (fst kv) = None"
    using Cons.prems by (simp add: map_of_eq_None_iff)
  show ?case
    unfolding step using IH none
    by (cases kv) (auto simp: update_conv' split: option.splits if_splits)
qed

lemma fold_take_sstable_props:
  "distinct (map fst r) \<Longrightarrow>
   distinct (map fst (fold (take_sstable a b) ts r))
   \<and> map_of (fold (take_sstable a b) ts r) k
       = (case map_of r k of Some v \<Rightarrow> Some v
          | None \<Rightarrow> if in_bounds a b k then mem_find ts k else None)"
proof (induction ts arbitrary: r)
  case Nil
  then show ?case by (simp split: option.splits)
next
  case (Cons t ts)
  have d: "distinct (map fst (take_sstable a b t r))"
    using take_sstable_props [OF Cons.prems] by blast
  have m: "map_of (take_sstable a b t r) k
       = (case map_of r k of Some v \<Rightarrow> Some v
          | None \<Rightarrow> if in_bounds a b k then map_of t k else None)"
    using take_sstable_props [OF Cons.prems] by blast
  show ?case
    using Cons.IH [OF d] m by (auto split: option.splits)
qed

lemma mem_range_query_newest:
  assumes "distinct (map fst (mem_memtable s))"
  shows "distinct (map fst (mem_range_query a b s))
     \<and> map_of (mem_range_query a b s) k = (if in_bounds a b k then mem_newest k s else None)"
proof -
  have "distinct (map fst ([] :: (string \<times> string option) list))" by simp
  from take_memtable_props [OF assms this, of a b k]
  have d0: "distinct (map fst (take_memtable a b (mem_memtable s) []))"
    and m0: "map_of (take_memtable a b (mem_memtable s) []) k
        = (if in_bounds a b k then map_of (mem_memtable s) k else None)"
    by (auto split: option.splits)
  from fold_take_sstable_props [OF d0, of a b "rev (mem_sstables s)" k] m0
  show ?thesis
    by (auto simp: mem_range_query_def mem_newest_def split: option.splits)
qed

lemma lsm_range_query_props:
  "map_of (lsm_range_query start_key end_key s) k
      = (if start_key \<le> k \<and> k \<le> end_key then lsm_get k s else None)
   \<and> fst ` set (lsm_range_query start_key end_key s)
      = {k. start_key \<le> k \<and> k \<le> end_key \<and> lsm_get k s \<noteq> None}
   \<and> lsm_range_query start_key end_key s
      = filter (in_range start_key end_key) (memtable s)
        @ concat (map (\<lambda>p. case read_sstable (disk s) p of
                             None \<Rightarrow> [] | Some data \<Rightarrow> filter (in_range start_key end_key) data)
                   (sstables s))"
proof -
  have m: "map_of (lsm_range_query start_key end_key s) k
      = (if start_key \<le> k \<and> k \<le> end_key then lsm_get k s else None)" for k
    by (simp only: lsm_range_query_def lsm_get_def map_of_append_first map_of_filter_in_range
        map_of_range_sstables split: option.split) auto
  have "fst ` set (lsm_range_query start_key end_key s)
      = dom (map_of (lsm_range_query start_key end_key s))"
    by (simp add: dom_map_of_conv_image_fst)
  also have "\<dots> = {k. start_key \<le> k \<and> k \<le> end_key \<and> lsm_get k s \<noteq> None}"
    by (auto simp: dom_def m split: if_splits)
  finally have d: "fst ` set (lsm_range_query start_key end_key s)
      = {k. start_key \<le> k \<and> k \<le> end_key \<and> lsm_get k s \<noteq> None}" .
  have c: "range_sstables d ps a b
      = concat (map (\<lambda>p. case read_sstable d p of
                             None \<Rightarrow> [] | Some data \<Rightarrow> filter (in_range a b) data) ps)"
    for d ps a b
    by (induction ps) auto
  show ?thesis using m d by (simp add: lsm_range_query_def c)
qed


text \<open>
  C2, as the code has it. For the file-backed engine the keys that \<open>range_query\<close> lists
  are exactly the keys in \<open>[start_key, end_key]\<close> held by the memtable or a readable
  SSTable (the keys that \<open>get\<close> finds), and the first pair listed for a key carries the
  value of the newest source holding it, namely the value \<open>get\<close> returns. \<open>range_query\<close>
  of the in-memory engine of \<open>app.py\<close> returns a dict: each key in range once, with the
  value of the newest source holding it. Neither engine sorts the result by key.
\<close>

theorem range_query_newest_first:
  "map_of (lsm_range_query start_key end_key s) k
      = (if start_key \<le> k \<and> k \<le> end_key then lsm_get k s else None)
   \<and> fst ` set (lsm_range_query start_key end_key s)
      = {k. start_key \<le> k \<and> k \<le> end_key \<and> lsm_get k s \<noteq> None}
   \<and> (distinct (map fst (mem_memtable m)) \<longrightarrow>
         distinct (map fst (mem_range_query start_key end_key m))
       \<and> map_of (mem_range_query start_key end_key m) k
           = (if in_bounds start_key end_key k then mem_newest k m else None))"
  using lsm_range_query_props [of start_key end_key s k]
    mem_range_query_newest [of m start_key end_key k]
  by blast

theorem range_query_newest_first_witness:
  "lsm_range_query ''a'' ''z'' overwritten
      = [(''a'', ''new''), (''b'', ''1''), (''a'', ''old'')]
   \<and> map_of (lsm_range_query ''a'' ''z'' overwritten) ''a'' = Some ''new''
   \<and> lsm_get ''a'' overwritten = Some ''new''
   \<and> fst ` set (lsm_range_query ''a'' ''z'' overwritten)
      = {k. ''a'' \<le> k \<and> k \<le> ''z'' \<and> lsm_get k overwritten \<noteq> None}
   \<and> distinct (map fst (mem_memtable mem_example))
   \<and> mem_range_query ''a'' ''z'' mem_example = [(''b'', Some ''1''), (''a'', Some ''2'')]
   \<and> map_of (mem_range_query ''a'' ''z'' mem_example) ''a'' = mem_newest ''a'' mem_example
   \<and> mem_get ''a'' mem_example = Some ''2''"
proof -
  have q: "lsm_range_query ''a'' ''z'' overwritten
      = [(''a'', ''new''), (''b'', ''1''), (''a'', ''old'')]"
    by (simp add: overwritten_def fresh2_def init_eval lsm_eval lsm_range_query_def
        read_sstable_def dict_of_def dict_update_def in_range_def)
  note t = range_query_newest_first [of "''a''" "''z''" overwritten "''a''" mem_example]
  have a: "map_of (lsm_range_query ''a'' ''z'' overwritten) ''a'' = lsm_get ''a'' overwritten"
    using t [THEN conjunct1] by simp
  have m: "map_of (lsm_range_query ''a'' ''z'' overwritten) ''a'' = Some ''new''"
    by (simp add: q)
  have g: "lsm_get ''a'' overwritten = Some ''new''"
    using a m by simp
  have d: "distinct (map fst (mem_memtable mem_example))"
    by (simp add: mem_example_def mem_eval)
  have r: "mem_range_query ''a'' ''z'' mem_example = [(''b'', Some ''1''), (''a'', Some ''2'')]"
    by (simp add: mem_example_def mem_eval)
  have n: "map_of (mem_range_query ''a'' ''z'' mem_example) ''a'' = mem_newest ''a'' mem_example"
    using t [THEN conjunct2, THEN conjunct2] d by (simp add: in_bounds_def)
  have mg: "mem_get ''a'' mem_example = Some ''2''"
    by (simp add: mem_example_def mem_eval mem_get_def)
  show ?thesis
    using q m g t [THEN conjunct2, THEN conjunct1] d r n mg by (intro conjI)
qed

text \<open>
  C2 as stated fails: with \<open>a\<close> both in the memtable and in a snapshot, and \<open>b\<close> flushed
  before \<open>a\<close>, the file-backed engine lists \<open>a\<close> twice and not in ascending key order; the
  in-memory engine returns \<open>b\<close> before \<open>a\<close> when \<open>b\<close> was inserted first.
\<close>

theorem range_query_unsorted_duplicates:
  "(''a''::string) \<le> ''z''
   \<and> lsm_range_query ''a'' ''z'' overwritten
      = [(''a'', ''new''), (''b'', ''1''), (''a'', ''old'')]
   \<and> \<not> sorted (map fst (lsm_range_query ''a'' ''z'' overwritten))
   \<and> \<not> distinct (map fst (lsm_range_query ''a'' ''z'' overwritten))
   \<and> mem_range_query ''a'' ''z'' mem_example = [(''b'', Some ''1''), (''a'', Some ''2'')]
   \<and> \<not> sorted (map fst (mem_range_query ''a'' ''z'' mem_example))"
  by (simp add: overwritten_def fresh2_def init_eval lsm_eval lsm_range_query_def
      read_sstable_def dict_of_def dict_update_def in_range_def mem_example_def mem_eval)

subsection \<open>Compaction\<close>

lemma distinct_dict_update:
  "distinct (map fst m) \<Longrightarrow> distinct (map fst (dict_update m data))"
  unfolding dict_update_def
  by (induction data arbitrary: m) (simp_all add: distinct_update)

lemma distinct_dict_of: "distinct (map fst (dict_of t))"
  by (simp add: dict_of_def distinct_dict_update)

lemma map_of_dict_update:
  "distinct (map fst data) \<Longrightarrow>
   map_of (dict_update m data) k
     = (case map_of data k of None \<Rightarrow> map_of m k | Some v \<Rightarrow> Some v)"
proof (induction data arbitrary: m)
  case Nil
  then show ?case by (simp add: dict_update_def)
next
  case (Cons kv data)
  have IH: "map_of (dict_update (AList.update (fst kv) (snd kv) m) data) k
     = (case map_of data k of None \<Rightarrow> map_of (AList.update (fst kv) (snd kv) m) k
        | Some v \<Rightarrow> Some v)"
    using Cons.prems by (intro Cons.IH) simp
  have step: "dict_update m (kv # data) = dict_update (AList.update (fst kv) (snd kv) m) data"
    by (simp add: dict_update_def)
  show ?case
  proof (cases "k = fst kv")
    case True
    then have none: "map_of data k = None"
      using Cons.prems by (simp add: map_of_eq_None_iff)
    have hd: "map_of (kv # data) k = Some (snd kv)" using True by (cases kv) simp
    have "map_of (dict_update m (kv # data)) k = Some (snd kv)"
      unfolding step IH none using True by (simp add: update_conv')
    then show ?thesis by (simp only: hd option.case)
  next
    case False
    have tl: "map_of (kv # data) k = map_of data k" using False by (cases kv) simp
    have "map_of (AList.update (fst kv) (snd kv) m) k = map_of m k"
      using False by (simp add: update_conv')
    then show ?thesis unfolding step IH tl by (simp split: option.split)
  qed
qed

lemma read_sstable_distinct:
  "read_sstable d p = Some data \<Longrightarrow> distinct (map fst data)"
  by (auto simp: read_sstable_def distinct_dict_of split: option.splits sst_file.splits)

lemma get_sstables_append:
  "get_sstables d (ps @ qs) k
     = (case get_sstables d ps k of None \<Rightarrow> get_sstables d qs k | Some v \<Rightarrow> Some v)"
  by (induction ps) (auto split: option.splits)

lemma map_of_merge_sstables:
  "map_of (merge_sstables d qs m) k
     = (case get_sstables d (rev qs) k of None \<Rightarrow> map_of m k | Some v \<Rightarrow> Some v)"
proof (induction qs arbitrary: m)
  case Nil
  then show ?case by simp
next
  case (Cons q qs)
  show ?case
  proof (cases "read_sstable d q")
    case None
    then show ?thesis
      by (simp add: Cons.IH get_sstables_append split: option.splits)
  next
    case (Some data)
    then have "distinct (map fst data)" by (rule read_sstable_distinct)
    then show ?thesis using Some
      by (simp add: Cons.IH get_sstables_append map_of_dict_update split: option.splits)
  qed
qed

lemma distinct_merge_sstables:
  "distinct (map fst m) \<Longrightarrow> distinct (map fst (merge_sstables d qs m))"
  by (induction qs arbitrary: m) (auto simp: distinct_dict_update split: option.splits)

lemma map_of_remove_files:
  "p \<notin> set ps \<Longrightarrow> map_of (remove_files io ps d) p = map_of d p"
  by (induction ps arbitrary: d) auto


text \<open>
  C8, as the code has it. When the engine has at least one SSTable, the write of the
  compacted snapshot succeeds and its name is not the name of an SSTable in the list, then
  \<open>compact\<close> returns normally, \<open>get\<close> answers every key as it did before (the memtable is
  untouched), and exactly one snapshot remains in the list; with two or more SSTables that
  snapshot is the new one, holding for each key the value the newest SSTable had for it.
\<close>

theorem compact_preserves_get:
  assumes some: "sstables s \<noteq> []"
    and wr: "sst_write_ok io"
    and fresh: "compact_name (sstable_dir s) (now_ms io) \<notin> set (sstables s)"
  shows "fst (lsm_compact io s) = None
     \<and> (\<forall>k. lsm_get k (snd (lsm_compact io s)) = lsm_get k s)
     \<and> length (sstables (snd (lsm_compact io s))) = 1
     \<and> memtable (snd (lsm_compact io s)) = memtable s
     \<and> (1 < length (sstables s) \<longrightarrow>
          sstables (snd (lsm_compact io s)) = [compact_name (sstable_dir s) (now_ms io)]
          \<and> read_sstable (disk (snd (lsm_compact io s)))
                (compact_name (sstable_dir s) (now_ms io))
              = Some (merge_sstables (disk s) (rev (sstables s)) [])
          \<and> (\<forall>k. map_of (merge_sstables (disk s) (rev (sstables s)) []) k
                   = get_sstables (disk s) (sstables s) k))"
proof (cases "length (sstables s) \<le> 1")
  case True
  with some have "length (sstables s) = 1" by (cases "sstables s") auto
  then show ?thesis by (simp add: lsm_compact_def)
next
  case False
  let ?new = "compact_name (sstable_dir s) (now_ms io)"
  let ?merged = "merge_sstables (disk s) (rev (sstables s)) []"
  let ?d' = "remove_files io (sstables s) (AList.update ?new (Table ?merged) (disk s))"
  have run: "lsm_compact io s = (None, s\<lparr> disk := ?d', sstables := [?new] \<rparr>)"
    using False wr by (simp add: lsm_compact_def Let_def)
  have "distinct (map fst ?merged)" by (simp add: distinct_merge_sstables)
  then have norm: "dict_of ?merged = ?merged" by (rule dict_of_distinct)
  have "map_of ?d' ?new = Some (Table ?merged)"
    using fresh by (simp add: map_of_remove_files update_conv')
  then have rd: "read_sstable ?d' ?new = Some ?merged"
    by (simp add: read_sstable_def norm)
  have mg: "map_of ?merged k = get_sstables (disk s) (sstables s) k" for k
    by (simp add: map_of_merge_sstables split: option.splits)
  have "lsm_get k (s\<lparr> disk := ?d', sstables := [?new] \<rparr>) = lsm_get k s" for k
    by (simp add: lsm_get_def rd mg split: option.splits)
  then show ?thesis using run rd mg False by simp
qed

theorem compact_preserves_get_witness:
  "sstables two_runs
      = [''sstables/sstable_1700000000004.json'', ''sstables/sstable_1700000000002.json'']
   \<and> sst_write_ok (io_ok 1700000000005)
   \<and> compact_name (sstable_dir two_runs) (now_ms (io_ok 1700000000005))
        \<notin> set (sstables two_runs)
   \<and> sstables (snd (lsm_compact (io_ok 1700000000005) two_runs))
      = [''sstables/sstable_compact_1700000000005.json'']
   \<and> lsm_get ''a'' two_runs = Some ''new''
   \<and> lsm_get ''a'' (snd (lsm_compact (io_ok 1700000000005) two_runs)) = Some ''new''
   \<and> length (sstables (snd (lsm_compact (io_ok 1700000000005) two_runs))) = 1"
proof -
  have st: "sstables two_runs
      = [''sstables/sstable_1700000000004.json'', ''sstables/sstable_1700000000002.json'']"
    and dir: "sstable_dir two_runs = ''sstables''"
    by (simp_all add: two_runs_def overwritten_def fresh2_def init_eval lsm_eval)
  have w: "sst_write_ok (io_ok 1700000000005)" by (simp add: io_ok_def)
  have n: "compact_name (sstable_dir two_runs) (now_ms (io_ok 1700000000005))
      = ''sstables/sstable_compact_1700000000005.json''"
    by (simp add: dir lsm_eval)
  have f: "compact_name (sstable_dir two_runs) (now_ms (io_ok 1700000000005))
        \<notin> set (sstables two_runs)"
    by (simp add: n st)
  have ne: "sstables two_runs \<noteq> []" by (simp add: st)
  have g: "lsm_get ''a'' two_runs = Some ''new''"
    by (simp add: two_runs_def overwritten_def fresh2_def init_eval lsm_eval lsm_get_def
        read_sstable_def dict_of_def dict_update_def)
  from compact_preserves_get [OF ne w f] st n g w f
  show ?thesis by simp
qed

text \<open>
  C8 as stated fails for an engine with no SSTable: \<open>compact\<close> returns at once and no
  snapshot remains, not one.
\<close>

theorem compact_empty_leaves_none:
  "fst (lsm_compact (io_ok 1700000000005) fresh2) = None
   \<and> sstables fresh2 = []
   \<and> sstables (snd (lsm_compact (io_ok 1700000000005) fresh2)) = []
   \<and> length (sstables (snd (lsm_compact (io_ok 1700000000005) fresh2))) \<noteq> 1"
  by (simp add: fresh2_def init_eval lsm_compact_def)

subsection \<open>The snapshot list after a restart\<close>

lemmas scenario_eval =
  flushed_after_compaction_def compacted_def two_runs_def overwritten_def fresh2_def
  lsm_compact_def read_sstable_def dict_of_def dict_update_def

lemma flushed_after_compaction_state:
  "flushed_after_compaction =
     \<lparr> memtable = [],
        sstables = [''sstables/sstable_1700000000007.json'',
                    ''sstables/sstable_compact_1700000000005.json''],
        max_memtable_size = 2, sstable_dir = ''sstables'', wal_log = None,
        disk = [(''sstables/sstable_compact_1700000000005.json'',
                   Table [(''b'', ''1''), (''a'', ''new''), (''c'', ''3'')]),
                (''sstables/sstable_1700000000007.json'',
                   Table [(''a'', ''newest''), (''d'', ''4'')])] \<rparr>"
  by (simp add: scenario_eval init_eval lsm_eval)

text \<open>
  The name of a compacted snapshot comes from the clock alone. When the clock reads
  1700000000005 again at a second compaction, the new file takes the path of a listed
  SSTable and is removed with the old files: the list names a file that is gone, and
  \<open>get\<close> finds nothing.
\<close>

lemma compact_name_collision_loses_snapshots:
  "compact_name (sstable_dir flushed_after_compaction) (now_ms (io_ok 1700000000005))
      \<in> set (sstables flushed_after_compaction)
   \<and> lsm_get ''a'' flushed_after_compaction = Some ''newest''
   \<and> fst (lsm_compact (io_ok 1700000000005) flushed_after_compaction) = None
   \<and> sstables (snd (lsm_compact (io_ok 1700000000005) flushed_after_compaction))
       = [''sstables/sstable_compact_1700000000005.json'']
   \<and> disk (snd (lsm_compact (io_ok 1700000000005) flushed_after_compaction)) = []
   \<and> lsm_get ''a'' (snd (lsm_compact (io_ok 1700000000005) flushed_after_compaction)) = None"
  by (simp add: flushed_after_compaction_state lsm_compact_def lsm_eval lsm_get_def
      read_sstable_def dict_of_def dict_update_def)

text \<open>
  C9 fails on the code. The engine flushes twice, compacts at clock reading
  1700000000005 and flushes again at 1700000000007: its SSTable list is the snapshot of
  1700000000007 before the compacted one, and \<open>get\<close> of \<open>a\<close> returns the value written
  last. A fresh engine over the same storage sorts the file names as strings, where
  \<open>sstable_compact_...\<close> is above every \<open>sstable_<digits>\<close>: it lists the older, compacted
  snapshot first, and \<open>get\<close> of \<open>a\<close> returns the value that had been overwritten.
\<close>

theorem reload_puts_compacted_first:
  "sstables flushed_after_compaction
      = [''sstables/sstable_1700000000007.json'',
         ''sstables/sstable_compact_1700000000005.json'']
   \<and> sstables (reopen (io_ok 1700000000008) flushed_after_compaction)
      = [''sstables/sstable_compact_1700000000005.json'',
         ''sstables/sstable_1700000000007.json'']
   \<and> lsm_get ''a'' flushed_after_compaction = Some ''newest''
   \<and> lsm_get ''a'' (reopen (io_ok 1700000000008) flushed_after_compaction) = Some ''new''"
  by (simp add: flushed_after_compaction_state init_eval reopen_def glob_match_def
      strip_prefix_def path_join_def lsm_get_def read_sstable_def dict_of_def dict_update_def)

subsection \<open>Recovery from the WAL\<close>

lemma dropWhile_hd: "s \<noteq> [] \<Longrightarrow> \<not> P (hd s) \<Longrightarrow> dropWhile P s = s"
  by (cases s) auto

lemma strip_id:
  assumes "s \<noteq> []" "\<not> is_space (hd s)" "\<not> is_space (last s)"
  shows "py_strip s = s"
proof -
  have "dropWhile is_space s = s" using assms by (simp add: dropWhile_hd)
  moreover have "dropWhile is_space (rev s) = rev s"
    using assms by (intro dropWhile_hd) (simp_all add: hd_rev)
  ultimately show ?thesis by (simp add: py_strip_def)
qed

lemma colon_not_space: "\<not> is_space CHR '':''"
  by (simp add: is_space_def)

lemma strip_wal_entry:
  assumes "wal_safe key val"
  shows "py_strip (key @ CHR '':'' # val) = key @ CHR '':'' # val"
proof (rule strip_id)
  show "key @ CHR '':'' # val \<noteq> []" by simp
  show "\<not> is_space (hd (key @ CHR '':'' # val))"
    using assms colon_not_space by (cases key) (simp_all add: wal_safe_def)
  show "\<not> is_space (last (key @ CHR '':'' # val))"
    using assms colon_not_space by (cases "val = []") (simp_all add: wal_safe_def)
qed

lemma split_colon_entry:
  assumes "CHR '':'' \<notin> set key"
  shows "split_colon (key @ CHR '':'' # val) = Some (key, val)"
proof -
  have "\<forall>c\<in>set key. c \<noteq> CHR '':''" using assms by auto
  then have "takeWhile (\<lambda>c. c \<noteq> CHR '':'') (key @ CHR '':'' # val) = key"
    and "dropWhile (\<lambda>c. c \<noteq> CHR '':'') (key @ CHR '':'' # val) = CHR '':'' # val"
    by (simp_all add: takeWhile_append2 dropWhile_append2)
  then show ?thesis by (simp add: split_colon_def)
qed

lemma replay_entry:
  assumes "wal_safe key val"
  shows "replay_line (key @ CHR '':'' # val) m = AList.update key val m"
proof -
  have "CHR '':'' \<notin> set key" using assms by (simp add: wal_safe_def)
  then show ?thesis
    by (simp add: replay_line_def strip_wal_entry [OF assms] split_colon_entry)
qed

lemma replay_empty_line: "replay_line [] m = m"
  by (simp add: replay_line_def py_strip_def split_colon_def)

lemma split_on_ne: "split_on P xs \<noteq> []"
  by (induction xs) (auto split: list.splits)

lemma split_on_snoc: "P c \<Longrightarrow> split_on P (xs @ [c]) = split_on P xs @ [[]]"
  using split_on_ne [of P] by (induction xs) (auto split: list.splits)

lemma split_on_line:
  "\<forall>x\<in>set l. \<not> P x \<Longrightarrow>
   split_on P (l @ ys) = (l @ hd (split_on P ys)) # tl (split_on P ys)"
  using split_on_ne [of P ys] by (induction l) (auto split: list.splits)

lemma split_on_sep:
  "P c \<Longrightarrow> split_on P (xs @ c # ys) = split_on P xs @ split_on P ys"
  using split_on_ne [of P] by (induction xs) (auto split: list.splits)

lemma split_on_entry:
  assumes "\<forall>x\<in>set l. \<not> P x" "P c"
  shows "split_on P (l @ [c]) = [l, []]"
  using split_on_line [OF assms(1), of "[c]"] assms(2) by simp

lemma replay_append_entry:
  assumes closed: "t = [] \<or> is_newline (last t)"
    and safe: "wal_safe key val"
  shows "fold replay_line (split_on is_newline (t @ wal_line key val)) m
     = AList.update key val (fold replay_line (split_on is_newline t) m)"
proof -
  let ?l = "key @ CHR '':'' # val"
  have nl: "is_newline (CHR 0x0A)" by (simp add: is_newline_def)
  have "CHR '':'' \<noteq> CHR 0x0A \<and> CHR '':'' \<noteq> CHR 0x0D" by simp
  then have nonl: "\<forall>x\<in>set ?l. \<not> is_newline x"
    using safe by (auto simp: wal_safe_def is_newline_def)
  have entry: "split_on is_newline (?l @ [CHR 0x0A]) = [?l, []]"
    using nonl nl by (rule split_on_entry)
  have line: "wal_line key val = ?l @ [CHR 0x0A]" by (simp add: wal_line_def)
  show ?thesis
  proof (cases "t = []")
    case True
    then show ?thesis
      unfolding line by (simp only: append_Nil entry) (simp add: replay_entry [OF safe] replay_empty_line)
  next
    case False
    with closed obtain t' c where t: "t = t' @ [c]" and c: "is_newline c"
      by (metis append_butlast_last_id)
    have "t @ wal_line key val = t' @ c # (?l @ [CHR 0x0A])" by (simp add: t line)
    then have "split_on is_newline (t @ wal_line key val)
        = split_on is_newline t' @ [?l, []]"
      using split_on_sep [of is_newline c t' "?l @ [CHR 0x0A]"] c by (simp only: entry)
    moreover have "split_on is_newline t = split_on is_newline t' @ [[]]"
      unfolding t using c by (rule split_on_snoc)
    ultimately show ?thesis
      by (simp add: replay_entry [OF safe] replay_empty_line)
  qed
qed

lemma wal_replay_None: "wal_replay None = []"
  by (simp add: wal_replay_def wal_text_def replay_empty_line)

lemma insert_keeps_wal_consistent:
  assumes inv: "wal_consistent s"
    and safe: "wal_safe key val"
    and app: "wal_append_ok io"
    and rm: "remove_ok io wal_file"
  shows "wal_consistent (snd (lsm_insert io key val s))"
proof -
  let ?t = "wal_text (wal_log s)"
  let ?w = "Some (?t @ wal_line key val)"
  have closed: "?t = [] \<or> is_newline (last ?t)"
    using inv by (simp add: wal_consistent_def wal_closed_def)
  have "wal_replay ?w = AList.update key val (wal_replay (wal_log s))"
    using replay_append_entry [OF closed safe, of "[]"]
    by (simp add: wal_replay_def wal_text_def)
  then have rep: "wal_replay ?w = AList.update key val (memtable s)"
    using inv by (simp add: wal_consistent_def)
  have cl: "wal_closed ?w"
    by (simp add: wal_closed_def wal_text_def wal_line_def is_newline_def)
  have none: "wal_closed None" by (simp add: wal_closed_def wal_text_def)
  show ?thesis
    using inv rep cl app rm none
    by (simp add: lsm_insert_def flush_memtable_def Let_def wal_consistent_def wal_replay_None)
qed

lemma insert_all_keeps_wal_consistent:
  assumes "wal_consistent s"
    and "\<forall>x\<in>set ops. wal_safe (fst (snd x)) (snd (snd x))"
    and "\<forall>x\<in>set ops. wal_append_ok (fst x)"
    and "\<forall>x\<in>set ops. remove_ok (fst x) wal_file"
  shows "wal_consistent (snd (insert_all ops s))"
  using assms
proof (induction ops arbitrary: s)
  case Nil
  then show ?case by simp
next
  case (Cons x ops)
  obtain io k v where x: "x = (io, k, v)" by (cases x) auto
  have step: "wal_consistent (snd (lsm_insert io k v s))"
    using Cons.prems x by (intro insert_keeps_wal_consistent) auto
  show ?case
  proof (cases "lsm_insert io k v s")
    case (Pair r s')
    show ?thesis
    proof (cases r)
      case None
      have "wal_consistent (snd (insert_all ops s'))"
        using step Pair Cons.prems by (intro Cons.IH) auto
      then show ?thesis using x Pair None by simp
    next
      case (Some e)
      then show ?thesis using x Pair step by simp
    qed
  qed
qed

lemma reopen_memtable:
  "wal_read_ok io \<Longrightarrow> memtable (reopen io s) = wal_replay (wal_log s)"
  by (cases "wal_log s")
    (simp_all add: reopen_def lsm_init_def load_existing_sstables_def recover_from_wal_def
      wal_replay_def wal_text_def replay_empty_line)

text \<open>
  C4, as the code has it. Start from an engine with an empty memtable and no WAL (a fresh
  engine, or one that has just flushed) and run a sequence of inserts, each of which
  appends its line \<open>key:value\<close> to the WAL, whose keys hold no colon, whose keys and values
  hold no line break, and whose keys do not start and values do not end with white space
  (a flush in between must manage to remove the WAL). Then a fresh engine constructed over
  the same storage that can read the WAL has a memtable equal to the memtable of the
  engine that was running.
\<close>

theorem wal_roundtrip:
  assumes "memtable s = []" and "wal_log s = None"
    and "\<forall>x\<in>set ops. wal_append_ok (fst x)"
    and "\<forall>x\<in>set ops. wal_safe (fst (snd x)) (snd (snd x))"
    and "\<forall>x\<in>set ops. remove_ok (fst x) wal_file"
    and "wal_read_ok io"
  shows "memtable (reopen io (snd (insert_all ops s))) = memtable (snd (insert_all ops s))"
proof -
  have "wal_consistent s"
    using assms(1,2) by (simp add: wal_consistent_def wal_replay_None wal_closed_def wal_text_def)
  then have "wal_consistent (snd (insert_all ops s))"
    using assms(4,3,5) by (rule insert_all_keeps_wal_consistent)
  then show ?thesis
    using assms(6) by (simp add: reopen_memtable wal_consistent_def)
qed

theorem wal_roundtrip_witness:
  "memtable fresh5 = [] \<and> wal_log fresh5 = None
   \<and> wal_append_ok (io_ok 1700000000001) \<and> wal_append_ok (io_ok 1700000000002)
   \<and> wal_append_ok (io_ok 1700000000003)
   \<and> wal_safe ''k'' ''v1'' \<and> wal_safe ''x y'' ''a:b'' \<and> wal_safe ''k'' ''v2''
   \<and> wal_read_ok (io_ok 1700000000004)
   \<and> fst (insert_all crash_ops fresh5) = None
   \<and> wal_log (snd (insert_all crash_ops fresh5))
       = Some (wal_line ''k'' ''v1'' @ wal_line ''x y'' ''a:b'' @ wal_line ''k'' ''v2'')
   \<and> memtable (snd (insert_all crash_ops fresh5)) = [(''k'', ''v2''), (''x y'', ''a:b'')]
   \<and> memtable (reopen (io_ok 1700000000004) (snd (insert_all crash_ops fresh5)))
       = [(''k'', ''v2''), (''x y'', ''a:b'')]"
proof -
  have f: "memtable fresh5 = []" "wal_log fresh5 = None" by (simp_all add: init_eval)
  have ap: "wal_append_ok (io_ok 1700000000001)" "wal_append_ok (io_ok 1700000000002)"
    "wal_append_ok (io_ok 1700000000003)" by (simp_all add: io_ok_def)
  have a: "\<forall>x\<in>set crash_ops. wal_append_ok (fst x)"
    using ap by (simp add: crash_ops_def)
  have sf: "wal_safe ''k'' ''v1''" "wal_safe ''x y'' ''a:b''" "wal_safe ''k'' ''v2''"
    by (simp_all add: wal_safe_def is_newline_def is_space_def)
  have s: "\<forall>x\<in>set crash_ops. wal_safe (fst (snd x)) (snd (snd x))"
    using sf by (simp add: crash_ops_def)
  have r: "\<forall>x\<in>set crash_ops. remove_ok (fst x) wal_file"
    by (simp add: crash_ops_def io_ok_def)
  have o: "wal_read_ok (io_ok 1700000000004)" by (simp add: io_ok_def)
  have e: "fst (insert_all crash_ops fresh5) = None"
    by (simp add: crash_ops_def init_eval lsm_eval)
  have w: "wal_log (snd (insert_all crash_ops fresh5))
       = Some (wal_line ''k'' ''v1'' @ wal_line ''x y'' ''a:b'' @ wal_line ''k'' ''v2'')"
    by (simp add: crash_ops_def init_eval lsm_eval)
  have m: "memtable (snd (insert_all crash_ops fresh5)) = [(''k'', ''v2''), (''x y'', ''a:b'')]"
    by (simp add: crash_ops_def init_eval lsm_eval)
  have rt: "memtable (reopen (io_ok 1700000000004) (snd (insert_all crash_ops fresh5)))
       = [(''k'', ''v2''), (''x y'', ''a:b'')]"
    using wal_roundtrip [OF f a s r o] m by simp
  show ?thesis using f ap sf o e w m rt by (intro conjI)
qed

text \<open>
  An insert whose append fails is not covered: when the failed append of the key \<open>k\<close> has
  left the two characters \<open>k:\<close> in the WAL, \<open>insert\<close> raises and the memtable keeps its one
  entry, but a fresh engine reads the torn line as the key \<open>k\<close> with an empty value.
\<close>

lemma torn_append_breaks_roundtrip:
  "fst (insert_all [(io_ok 1700000000001, ''a'', ''1''),
         ((io_ok 1700000000002)\<lparr> wal_append_ok := False, wal_torn := Some 2 \<rparr>, ''k'', ''v'')]
         fresh5)
      = Some (IOError ''Failed to write to WAL'')
   \<and> memtable (snd (insert_all [(io_ok 1700000000001, ''a'', ''1''),
         ((io_ok 1700000000002)\<lparr> wal_append_ok := False, wal_torn := Some 2 \<rparr>, ''k'', ''v'')]
         fresh5))
      = [(''a'', ''1'')]
   \<and> memtable (reopen (io_ok 1700000000003) (snd (insert_all [(io_ok 1700000000001, ''a'', ''1''),
         ((io_ok 1700000000002)\<lparr> wal_append_ok := False, wal_torn := Some 2 \<rparr>, ''k'', ''v'')]
         fresh5)))
      = [(''a'', ''1''), (''k'', [])]"
  by (simp add: init_eval lsm_eval reopen_def torn_append_def split_on.simps is_newline_def
      replay_line_def py_strip_def is_space_def split_colon_def)

text \<open>
  C4 as stated fails for a key that holds a colon: \<open>insert("a:b", "c")\<close> writes the line
  \<open>a:b:c\<close>, which recovery splits at the first colon into the key \<open>a\<close> and the value
  \<open>b:c\<close>.
\<close>

theorem wal_roundtrip_colon_key:
  "fst (lsm_insert (io_ok 1700000000001) ''a:b'' ''c'' fresh5) = None
   \<and> sstables (snd (lsm_insert (io_ok 1700000000001) ''a:b'' ''c'' fresh5)) = []
   \<and> memtable (snd (lsm_insert (io_ok 1700000000001) ''a:b'' ''c'' fresh5)) = [(''a:b'', ''c'')]
   \<and> memtable (reopen (io_ok 1700000000002)
        (snd (lsm_insert (io_ok 1700000000001) ''a:b'' ''c'' fresh5))) = [(''a'', ''b:c'')]
   \<and> memtable (reopen (io_ok 1700000000002)
        (snd (lsm_insert (io_ok 1700000000001) ''a:b'' ''c'' fresh5)))
      \<noteq> memtable (snd (lsm_insert (io_ok 1700000000001) ''a:b'' ''c'' fresh5))"
  by (simp add: init_eval lsm_eval reopen_def split_on.simps is_newline_def replay_line_def
      py_strip_def is_space_def split_colon_def)

section \<open>Properties of the B+Tree\<close>

lemmas bpt_eval =
  bpt_insert_def bpt_get_def bpt_delete_def new_tree_def split_child_def list_insert_def
  list_pop_def list_index_def delete_from_leaf_def delete_internal_key_def fix_child_def
  insert_non_full.simps search.simps delete_node.simps Let_def

lemma leaves_leaf: "is_leaf n \<Longrightarrow> leaves n = [n]"
  by (cases n) simp

lemma leaves_internal: "\<not> is_leaf n \<Longrightarrow> leaves n = concat (map leaves (children n))"
  by (cases n) simp

lemma chain_linked_split:
  assumes "chain_linked (A @ c # B)"
    and "nid l = nid c" and "nxt l = Some (nid r)" and "nxt r = nxt c"
  shows "chain_linked (A @ l # r # B)"
  using assms
proof (induction A rule: chain_linked.induct)
  case 1
  then show ?case by (cases B) auto
next
  case (2 x)
  then show ?case by (cases B) auto
next
  case (3 x y zs)
  then show ?case by auto
qed

lemma five_inserts: "insert_each (new_tree 3) five = Inr tree5"
  by (simp add: five_def tree5_def full_leaf_def bpt_eval)

lemma scan_gt_le: "scan_gt key ks \<le> length ks"
  by (induction ks) auto

lemma scan_gt_stop:
  "scan_gt key ks < length ks \<Longrightarrow> key \<le> ks ! scan_gt key ks"
  by (induction ks) (auto split: if_splits)

lemma scan_gt_insert:
  "scan_gt key (take (scan_gt key ks) ks @ key # drop (scan_gt key ks) ks) = scan_gt key ks"
  by (induction ks) auto

lemma length_list_insert: "length (list_insert i x xs) = Suc (length xs)"
  by (simp add: list_insert_def)

lemma scan_gt_take: "length (take (scan_gt key ks) ks) = scan_gt key ks"
  using scan_gt_le [of key ks] by simp

lemma search_after_leaf_insert:
  assumes "is_leaf node" and "length (vals node) = length (keys node)"
  shows "\<exists>node'. insert_non_full maxk fresh node key val = Inr (node', fresh)
     \<and> search node' key = Inr (Some val)"
proof -
  let ?i = "scan_gt key (keys node)"
  let ?n = "Node (nid node) (list_insert ?i key (keys node)) (list_insert ?i val (vals node))
      (children node) (is_leaf node) (nxt node)"
  have run: "insert_non_full maxk fresh node key val = Inr (?n, fresh)"
    using assms by (simp add: insert_non_full.simps Let_def)
  have i: "?i \<le> length (keys node)" by (rule scan_gt_le)
  have s: "scan_gt key (list_insert ?i key (keys node)) = ?i"
    by (simp add: list_insert_def scan_gt_insert)
  have k: "list_insert ?i key (keys node) ! ?i = key"
    using i by (simp add: list_insert_def nth_append)
  have v: "list_insert ?i val (vals node) ! ?i = val"
    using i assms by (simp add: list_insert_def nth_append)
  have "search ?n key = Inr (Some val)"
    using assms i s k v by (subst search.simps) (simp add: Let_def length_list_insert)
  then show ?thesis using run by blast
qed

subsection \<open>Splitting a full child\<close>

text \<open>
  C7. Let the child at \<open>index\<close> of \<open>parent\<close> hold \<open>max_keys = 2 * degree - 1\<close> keys (with
  \<open>min_keys = degree - 1\<close>). Then \<open>_split_child\<close> returns normally; the parent gains
  exactly one key, the child's key at \<open>len(keys) // 2\<close>, at position \<open>index\<close>, and exactly
  one child, the new node, right after the split child; the other keys and children stay
  in place. Both nodes hold between \<open>min_keys\<close> and \<open>max_keys\<close> keys. For a leaf, the new
  node takes the keys and values from the split point on, the old node keeps those before
  it, the new node's \<open>next\<close> is the old node's former \<open>next\<close> and the old node's \<open>next\<close> is
  the new node; under an internal parent the keys read along the leaves are unchanged and
  a chained sequence of leaves stays chained. For an internal child the key at the split
  point moves up and the children are divided after it.
\<close>

theorem split_child_correct:
  fixes parent :: "('k, 'v) node" and t :: "('k, 'v) bplus_tree"
  assumes idx: "index < length (children parent)"
    and mink: "min_keys t = degree t - 1"
    and maxk: "max_keys t = 2 * degree t - 1"
    and full: "int (length (keys (children parent ! index))) = max_keys t"
  shows "\<exists>parent' left right.
      split_child fresh parent index = Inr parent'
    \<and> keys parent' = take index (keys parent)
          @ [keys (children parent ! index) ! (length (keys (children parent ! index)) div 2)]
          @ drop index (keys parent)
    \<and> children parent' = take index (children parent) @ [left, right]
          @ drop (index + 1) (children parent)
    \<and> nid left = nid (children parent ! index) \<and> nid right = fresh
    \<and> is_leaf left = is_leaf (children parent ! index)
    \<and> is_leaf right = is_leaf (children parent ! index)
    \<and> min_keys t \<le> int (length (keys left)) \<and> int (length (keys left)) \<le> max_keys t
    \<and> min_keys t \<le> int (length (keys right)) \<and> int (length (keys right)) \<le> max_keys t
    \<and> (is_leaf (children parent ! index) \<longrightarrow>
          keys right = drop (length (keys (children parent ! index)) div 2)
                         (keys (children parent ! index))
        \<and> vals right = drop (length (keys (children parent ! index)) div 2)
                         (vals (children parent ! index))
        \<and> keys left @ keys right = keys (children parent ! index)
        \<and> vals left @ vals right = vals (children parent ! index)
        \<and> nxt right = nxt (children parent ! index)
        \<and> nxt left = Some (nid right))
    \<and> (\<not> is_leaf (children parent ! index) \<longrightarrow>
          keys left @ [keys (children parent ! index)
                         ! (length (keys (children parent ! index)) div 2)] @ keys right
            = keys (children parent ! index)
        \<and> children left @ children right = children (children parent ! index))
    \<and> (is_leaf (children parent ! index) \<and> \<not> is_leaf parent \<longrightarrow>
          concat (map keys (leaves parent')) = concat (map keys (leaves parent))
        \<and> (chain_linked (leaves parent) \<longrightarrow> chain_linked (leaves parent')))"
proof -
  let ?child = "children parent ! index"
  let ?n = "length (keys ?child)"
  let ?sp = "?n div 2"
  have odd: "int ?n = 2 * degree t - 1" using full maxk by simp
  then have sp: "int ?sp = degree t - 1" by presburger
  have lt: "?sp < ?n" using odd by presburger
  have n: "int ?n - int ?sp = degree t" using odd sp by simp
  have d1: "1 \<le> degree t" using odd by presburger
  have id: "take ?sp (keys ?child) @ keys ?child ! ?sp # drop (Suc ?sp) (keys ?child)
      = keys ?child"
    using lt by (simp add: id_take_nth_drop [symmetric])
  have upd: "list_insert (index + 1) x ((children parent)[index := y])
      = take index (children parent) @ [y, x] @ drop (index + 1) (children parent)" for x y
    using idx by (simp add: list_insert_def take_Suc_conv_app_nth upd_conv_take_nth_drop)
  define left where "left =
     (if is_leaf ?child
      then Node (nid ?child) (take ?sp (keys ?child)) (take ?sp (vals ?child))
             (children ?child) True (Some fresh)
      else Node (nid ?child) (take ?sp (keys ?child)) (vals ?child)
             (take (?sp + 1) (children ?child)) False (nxt ?child))"
  define right where "right =
     (if is_leaf ?child
      then Node fresh (drop ?sp (keys ?child)) (drop ?sp (vals ?child)) [] True (nxt ?child)
      else Node fresh (drop (?sp + 1) (keys ?child)) []
             (drop (?sp + 1) (children ?child)) False None)"
  define parent' where "parent' =
     Node (nid parent) (list_insert index (keys ?child ! ?sp) (keys parent)) (vals parent)
       (list_insert (index + 1) right ((children parent)[index := left]))
       (is_leaf parent) (nxt parent)"
  have run: "split_child fresh parent index = Inr parent'"
    using idx lt by (simp add: split_child_def Let_def parent'_def left_def right_def)
  have k: "keys parent' = take index (keys parent) @ [keys ?child ! ?sp] @ drop index (keys parent)"
    by (simp add: parent'_def list_insert_def)
  have c: "children parent' = take index (children parent) @ [left, right]
      @ drop (index + 1) (children parent)"
    using upd [of right left] by (simp add: parent'_def)
  have ids: "nid left = nid ?child \<and> nid right = fresh
      \<and> is_leaf left = is_leaf ?child \<and> is_leaf right = is_leaf ?child"
    by (simp add: left_def right_def)
  have ll: "int (length (keys left)) = degree t - 1"
    using sp lt by (simp add: left_def min_def)
  have lr: "int (length (keys right)) = (if is_leaf ?child then degree t else degree t - 1)"
    using n lt by (auto simp: right_def of_nat_diff)
  have bounds: "min_keys t \<le> int (length (keys left)) \<and> int (length (keys left)) \<le> max_keys t
      \<and> min_keys t \<le> int (length (keys right)) \<and> int (length (keys right)) \<le> max_keys t"
    using ll lr d1 mink maxk by auto
  have leaf: "is_leaf ?child \<longrightarrow>
          keys right = drop ?sp (keys ?child) \<and> vals right = drop ?sp (vals ?child)
        \<and> keys left @ keys right = keys ?child \<and> vals left @ vals right = vals ?child
        \<and> nxt right = nxt ?child \<and> nxt left = Some (nid right)"
    by (simp add: left_def right_def)
  have internal: "\<not> is_leaf ?child \<longrightarrow>
          keys left @ [keys ?child ! ?sp] @ keys right = keys ?child
        \<and> children left @ children right = children ?child"
    using id by (simp add: left_def right_def)
  have chain: "is_leaf ?child \<and> \<not> is_leaf parent \<longrightarrow>
          concat (map keys (leaves parent')) = concat (map keys (leaves parent))
        \<and> (chain_linked (leaves parent) \<longrightarrow> chain_linked (leaves parent'))"
  proof
    assume a: "is_leaf ?child \<and> \<not> is_leaf parent"
    let ?A = "concat (map leaves (take index (children parent)))"
    let ?B = "concat (map leaves (drop (index + 1) (children parent)))"
    have cs: "children parent = take index (children parent) @ ?child
        # drop (index + 1) (children parent)"
      using idx by (simp add: id_take_nth_drop [symmetric])
    have "leaves parent = concat (map leaves (take index (children parent) @ ?child
        # drop (index + 1) (children parent)))"
      using a cs by (simp add: leaves_internal)
    then have old: "leaves parent = ?A @ ?child # ?B"
      using a by (simp add: leaves_leaf)
    have np: "\<not> is_leaf parent'" using a by (simp add: parent'_def)
    have "is_leaf left" "is_leaf right" using a ids by simp_all
    then have new: "leaves parent' = ?A @ left # right # ?B"
      using np c by (simp add: leaves_internal leaves_leaf)
    have kk: "keys left @ keys right = keys ?child" using leaf a by blast
    have ks: "concat (map keys (leaves parent')) = concat (map keys (leaves parent))"
      by (simp add: old new kk [symmetric])
    have "chain_linked (?A @ left # right # ?B)" if "chain_linked (?A @ ?child # ?B)"
      using that leaf a ids by (intro chain_linked_split [of ?A ?child ?B]) simp_all
    then show "concat (map keys (leaves parent')) = concat (map keys (leaves parent))
        \<and> (chain_linked (leaves parent) \<longrightarrow> chain_linked (leaves parent'))"
      using ks by (simp add: old new)
  qed
  show ?thesis
    using run k c ids bounds leaf internal chain by blast
qed

theorem split_child_correct_witness:
  "0 < length (children (Node 1 [] [] [full_leaf] False None))
   \<and> min_keys tree5 = degree tree5 - 1 \<and> max_keys tree5 = 2 * degree tree5 - 1
   \<and> int (length (keys (children (Node 1 [] [] [full_leaf] False None) ! 0))) = max_keys tree5
   \<and> split_child 2 (Node 1 [] [] [full_leaf] False None) 0
       = Inr (Node 1 [''3''] []
           [Node 0 [''1'', ''2''] [''v1'', ''v2''] [] True (Some 2),
            Node 2 [''3'', ''4'', ''5''] [''v3'', ''v4'', ''v5''] [] True None] False None)
   \<and> (\<exists>parent' left right.
         split_child 2 (Node 1 [] [] [full_leaf] False None) 0 = Inr parent'
       \<and> children parent' = [left, right] \<and> keys parent' = [''3'']
       \<and> nxt left = Some (nid right) \<and> nxt right = None
       \<and> length (keys left) = 2 \<and> length (keys right) = 3)"
proof -
  let ?p = "Node 1 [] [] [full_leaf] False None :: (string, string) node"
  have h1: "0 < length (children ?p)" by simp
  have h2: "min_keys tree5 = degree tree5 - 1" by (simp add: tree5_def)
  have h3: "max_keys tree5 = 2 * degree tree5 - 1" by (simp add: tree5_def)
  have h4: "int (length (keys (children ?p ! 0))) = max_keys tree5"
    by (simp add: tree5_def full_leaf_def)
  have run: "split_child 2 ?p 0
       = Inr (Node 1 [''3''] []
           [Node 0 [''1'', ''2''] [''v1'', ''v2''] [] True (Some 2),
            Node 2 [''3'', ''4'', ''5''] [''v3'', ''v4'', ''v5''] [] True None] False None)"
    by (simp add: full_leaf_def bpt_eval)
  from split_child_correct [OF h1 h2 h3 h4, of 2]
  obtain parent' left right where
    r: "split_child 2 ?p 0 = Inr parent'"
    and k: "keys parent' = take 0 (keys ?p)
          @ [keys (children ?p ! 0) ! (length (keys (children ?p ! 0)) div 2)]
          @ drop 0 (keys ?p)"
    and c: "children parent' = take 0 (children ?p) @ [left, right]
          @ drop (0 + 1) (children ?p)"
    and lf: "is_leaf (children ?p ! 0) \<longrightarrow>
          keys right = drop (length (keys (children ?p ! 0)) div 2) (keys (children ?p ! 0))
        \<and> vals right = drop (length (keys (children ?p ! 0)) div 2) (vals (children ?p ! 0))
        \<and> keys left @ keys right = keys (children ?p ! 0)
        \<and> vals left @ vals right = vals (children ?p ! 0)
        \<and> nxt right = nxt (children ?p ! 0)
        \<and> nxt left = Some (nid right)"
    by blast
  have k': "keys parent' = [''3'']" using k by (simp add: full_leaf_def)
  have c': "children parent' = [left, right]" using c by simp
  have lf': "nxt left = Some (nid right) \<and> nxt right = None
      \<and> length (keys left) = 2 \<and> length (keys right) = 3"
    using lf c' r run by (auto simp: full_leaf_def)
  have "\<exists>parent' left right.
         split_child 2 ?p 0 = Inr parent'
       \<and> children parent' = [left, right] \<and> keys parent' = [''3'']
       \<and> nxt left = Some (nid right) \<and> nxt right = None
       \<and> length (keys left) = 2 \<and> length (keys right) = 3"
    using r k' c' lf' by blast
  then show ?thesis using h1 h2 h3 h4 run by (intro conjI)
qed

subsection \<open>get after insert\<close>

text \<open>
  The LSM engine returns the inserted value: after an insert that stays below the
  threshold the pair is in the memtable, which \<open>get\<close> reads first. In a B+Tree leaf
  \<open>insert\<close> puts a pair in front of the pairs with an equal key, where \<open>_search\<close> finds it.
\<close>

lemma lsm_get_after_insert:
  assumes "wal_append_ok io"
    and "int (length (AList.update key val (memtable s))) < max_memtable_size s"
  shows "fst (lsm_insert io key val s) = None
     \<and> lsm_get key (snd (lsm_insert io key val s)) = Some val"
  using assms by (simp add: insert_below_step lsm_get_def update_conv')

text \<open>
  C1 fails on the code for the B+Tree. \<open>_insert_non_full\<close> descends to the left of a
  separator equal to the key (\<open>key > node.keys[index]\<close>) while \<open>_search\<close> descends to its
  right (\<open>key >= node.keys[index]\<close>). With degree 3, insert the keys \<open>1\<close> to \<open>5\<close> and then
  \<open>(3, new)\<close>: the root is full and splits with separator \<open>3\<close>, the new pair goes into the
  left leaf, and \<open>get(3)\<close> looks in the right leaf and returns the old value \<open>v3\<close>.
\<close>

theorem reinsert_separator_key_returns_old_value:
  "insert_each (new_tree 3) five = Inr tree5
   \<and> bpt_get tree5 ''3'' = Inr (Some ''v3'')
   \<and> bpt_insert tree5 ''3'' ''new'' = Inr reinserted
   \<and> bpt_get reinserted ''3'' = Inr (Some ''v3'')
   \<and> bpt_get reinserted ''3'' \<noteq> Inr (Some ''new'')"
  by (simp add: five_def tree5_def full_leaf_def reinserted_def bpt_eval)

subsection \<open>delete of an absent key\<close>

text \<open>Reading the keys in order: the sequence around one child.\<close>

lemma weave_Cons: "weave (k # ks) (c # d # cs) = c @ k # weave ks (d # cs)"
  by (simp add: weave_def)

lemma weave_split:
  "length cs = Suc (length ks) \<Longrightarrow> i \<le> length ks \<Longrightarrow>
   weave ks cs = weave_left (take i ks) (take i cs) @ cs ! i @ weave_right (drop i ks) (drop (Suc i) cs)"
proof (induction i arbitrary: ks cs)
  case 0
  then show ?case by (cases cs) (auto simp: weave_def)
next
  case (Suc i)
  then obtain k ks' where ks: "ks = k # ks'" by (cases ks) auto
  with Suc.prems obtain c d cs' where cs: "cs = c # d # cs'"
    by (cases cs; cases "tl cs") auto
  have "weave ks' (d # cs') = weave_left (take i ks') (take i (d # cs')) @ (d # cs') ! i
      @ weave_right (drop i ks') (drop (Suc i) (d # cs'))"
    using Suc.prems ks cs by (intro Suc.IH) auto
  then show ?case using ks cs by (simp add: weave_Cons)
qed

lemma set_weave_left:
  "length cs = length ks \<Longrightarrow> set (weave_left ks cs) = set ks \<union> (\<Union>c\<in>set cs. set c)"
  by (induction ks cs rule: weave_left.induct) auto

lemma set_weave_right:
  "length cs = length ks \<Longrightarrow> set (weave_right ks cs) = set ks \<union> (\<Union>c\<in>set cs. set c)"
  by (induction ks cs rule: weave_right.induct) auto

lemma set_weave:
  "length cs = Suc (length ks) \<Longrightarrow> set (weave ks cs) = set ks \<union> (\<Union>c\<in>set cs. set c)"
  by (cases cs) (auto simp: weave_def set_weave_right)

lemma weave_left_below:
  "length cs = length ks \<Longrightarrow> sorted (weave_left ks cs) \<Longrightarrow> \<forall>k\<in>set ks. k < key
   \<Longrightarrow> \<forall>x\<in>set (weave_left ks cs). x < (key::'a::linorder)"
proof (induction ks cs rule: weave_left.induct)
  case (1 k ks c cs)
  have s: "sorted (c @ k # weave_left ks cs)" using 1 by simp
  then have "sorted (weave_left ks cs)" by (simp add: sorted_append)
  then have ih: "\<forall>x\<in>set (weave_left ks cs). x < key" using 1 by simp
  have "\<forall>x\<in>set c. x \<le> k" using s by (simp add: sorted_append)
  moreover have "k < key" using 1 by simp
  ultimately show ?case using ih by auto
qed auto

lemma weave_right_above:
  "length cs = length ks \<Longrightarrow> sorted (weave_right ks cs) \<Longrightarrow> \<forall>k\<in>set ks. key \<le> k
   \<Longrightarrow> \<forall>x\<in>set (weave_right ks cs). (key::'a::linorder) \<le> x"
proof (induction ks cs rule: weave_right.induct)
  case (1 k ks c cs)
  have s: "sorted (k # c @ weave_right ks cs)" using 1 by simp
  then have "sorted (weave_right ks cs)" by (simp add: sorted_append)
  then have ih: "\<forall>x\<in>set (weave_right ks cs). key \<le> x" using 1 by simp
  have "\<forall>x\<in>set c. k \<le> x" using s by simp
  moreover have "key \<le> k" using 1 by simp
  ultimately show ?case using ih by auto
qed auto

lemma sorted_weave_right_keys:
  "length cs = length ks \<Longrightarrow> sorted (weave_right ks cs) \<Longrightarrow> sorted (ks::'a::linorder list)"
proof (induction ks cs rule: weave_right.induct)
  case (1 k ks c cs)
  then show ?case by (auto simp: sorted_append set_weave_right)
qed auto

lemma sorted_weave_keys:
  "length cs = Suc (length ks) \<Longrightarrow> sorted (weave ks cs) \<Longrightarrow> sorted (ks::'a::linorder list)"
  by (cases cs) (auto simp: weave_def sorted_append dest: sorted_weave_right_keys)

lemma scan_gt_take_below: "\<forall>k\<in>set (take (scan_gt key ks) ks). k < key"
  by (induction ks) auto

lemma scan_gt_drop_above: "sorted ks \<Longrightarrow> \<forall>k\<in>set (drop (scan_gt key ks) ks). key \<le> k"
  by (induction ks) auto

lemma weave_step: "cs \<noteq> [] \<Longrightarrow> weave (k # ks) (c # cs) = c @ k # weave ks cs"
  by (cases cs) (auto simp: weave_def)

lemma weave_append:
  "length cs1 = length ks1 \<Longrightarrow>
   weave (ks1 @ ks2) (cs1 @ c # cs2) = weave_left ks1 cs1 @ c @ weave_right ks2 cs2"
proof (induction cs1 ks1 rule: list_induct2)
  case Nil
  then show ?case by (simp add: weave_def)
next
  case (Cons x xs y ys)
  then show ?case by (simp add: weave_step)
qed

lemma weave_update:
  assumes "length cs = Suc (length ks)" and "i \<le> length ks"
  shows "weave ks (map f (cs[i := c])) =
     weave_left (take i ks) (map f (take i cs)) @ f c
       @ weave_right (drop i ks) (map f (drop (Suc i) cs))"
  using weave_split [of "map f (cs[i := c])" ks i] assms
  by (simp add: take_map drop_map)

lemma weave_at:
  assumes "length cs = Suc (length ks)" and "i \<le> length ks"
  shows "weave ks (map f cs) =
     weave_left (take i ks) (map f (take i cs)) @ f (cs ! i)
       @ weave_right (drop i ks) (map f (drop (Suc i) cs))"
  using weave_update [OF assms, of f "cs ! i"] assms by simp

lemma set_update_split:
  "i < length cs \<Longrightarrow> set (cs[i := c]) = set (take i cs) \<union> {c} \<union> set (drop (Suc i) cs)"
  by (simp add: upd_conv_take_nth_drop)

lemma set_nth_split:
  "i < length cs \<Longrightarrow> set cs = set (take i cs) \<union> {cs ! i} \<union> set (drop (Suc i) cs)"
  using set_update_split [of i cs "cs ! i"] by simp

lemma UN_update_split:
  "i < length cs \<Longrightarrow> (\<Union>c\<in>set (cs[i := c']). f c) =
     (\<Union>c\<in>set (take i cs). f c) \<union> f c' \<union> (\<Union>c\<in>set (drop (Suc i) cs). f c)"
  by (subst set_update_split) auto

lemma UN_nth_split:
  "i < length cs \<Longrightarrow> (\<Union>c\<in>set cs. f c) =
     (\<Union>c\<in>set (take i cs). f c) \<union> f (cs ! i) \<union> (\<Union>c\<in>set (drop (Suc i) cs). f c)"
  using UN_update_split [where i = i and cs = cs and c' = "cs ! i" and f = f] by simp

lemma weave_right_above_strict:
  "length cs = length ks \<Longrightarrow> sorted (weave_right ks cs) \<Longrightarrow> \<forall>k\<in>set ks. key < k
   \<Longrightarrow> \<forall>x\<in>set (weave_right ks cs). (key::'a::linorder) < x"
proof (induction ks cs rule: weave_right.induct)
  case (1 k ks c cs)
  have s: "sorted (k # c @ weave_right ks cs)" using 1 by simp
  then have "sorted (weave_right ks cs)" by (simp add: sorted_append)
  then have ih: "\<forall>x\<in>set (weave_right ks cs). key < x" using 1 by simp
  have "\<forall>x\<in>set c. k \<le> x" using s by simp
  moreover have "key < k" using 1 by simp
  ultimately show ?case using ih by auto
qed auto

text \<open>
  Replacing the child that the scan for \<open>key\<close> selects by a subtree whose keys are those
  of the child and possibly \<open>key\<close> keeps the keys of the node in order.
\<close>

lemma sorted_update_child:
  fixes key :: "'k::linorder"
  assumes len: "length cs = Suc (length ks)" and i: "i \<le> length ks"
    and s: "sorted (weave ks (map inorder cs))"
    and lo: "\<forall>k\<in>set (take i ks). k < key" and hi: "\<forall>k\<in>set (drop i ks). key \<le> k"
    and c1: "sorted (inorder c')"
    and c2: "set (inorder c') \<subseteq> insert key (set (inorder (cs ! i)))"
  shows "sorted (weave ks (map inorder (cs[i := c'])))"
proof -
  let ?L = "weave_left (take i ks) (map inorder (take i cs))"
  let ?R = "weave_right (drop i ks) (map inorder (drop (Suc i) cs))"
  have e: "weave ks (map inorder cs) = ?L @ inorder (cs ! i) @ ?R"
    by (rule weave_at [OF len i])
  have e': "weave ks (map inorder (cs[i := c'])) = ?L @ inorder c' @ ?R"
    by (rule weave_update [OF len i])
  have sL: "sorted ?L" and sR: "sorted ?R"
    and LR: "\<forall>x\<in>set ?L. \<forall>y\<in>set ?R. x \<le> y"
    and LC: "\<forall>x\<in>set ?L. \<forall>y\<in>set (inorder (cs ! i)). x \<le> y"
    and CR: "\<forall>x\<in>set (inorder (cs ! i)). \<forall>y\<in>set ?R. x \<le> y"
    using s unfolding e by (auto simp: sorted_append)
  have lenL: "length (map inorder (take i cs)) = length (take i ks)"
    using len i by simp
  have lenR: "length (map inorder (drop (Suc i) cs)) = length (drop i ks)"
    using len i by simp
  have bL: "\<forall>x\<in>set ?L. x < key"
    by (rule weave_left_below [OF lenL sL lo])
  have bR: "\<forall>x\<in>set ?R. key \<le> x"
    by (rule weave_right_above [OF lenR sR hi])
  have "\<forall>x\<in>set ?L. \<forall>y\<in>set (inorder c'). x \<le> y"
    using LC bL c2 by fastforce
  moreover have "\<forall>x\<in>set (inorder c'). \<forall>y\<in>set ?R. x \<le> y"
    using CR bR c2 by fastforce
  ultimately show ?thesis
    unfolding e' using sL sR LR c1 by (auto simp: sorted_append)
qed

lemma sorted_child:
  fixes ks :: "'k::linorder list"
  assumes len: "length cs = Suc (length ks)" and i: "i \<le> length ks"
    and s: "sorted (weave ks (map inorder cs))"
  shows "sorted (inorder (cs ! i))"
  using s unfolding weave_at [OF len i] by (auto simp: sorted_append)

lemma set_inorder: "well_formed n \<Longrightarrow> set (inorder n) = leaf_keys n \<union> sep_keys n"
proof (induction n)
  case (Node a ks vs cs leaf nx)
  show ?case
  proof (cases leaf)
    case True
    then show ?thesis by simp
  next
    case False
    then have len: "length (map inorder cs) = Suc (length ks)" using Node.prems by simp
    have "\<forall>c\<in>set cs. set (inorder c) = leaf_keys c \<union> sep_keys c"
      using Node.IH Node.prems False by simp
    then show ?thesis using False set_weave [OF len] by auto
  qed
qed

lemma well_formed_internal:
  "well_formed node \<Longrightarrow> \<not> is_leaf node \<Longrightarrow>
   length (children node) = Suc (length (keys node)) \<and> (\<forall>c\<in>set (children node). well_formed c)"
  by (cases node) auto

lemma well_formed_child:
  "well_formed node \<Longrightarrow> \<not> is_leaf node \<Longrightarrow> i \<le> length (keys node)
   \<Longrightarrow> well_formed (children node ! i)"
  using well_formed_internal [of node] nth_mem [of i "children node"] by auto

lemma sorted_keys:
  fixes node :: "('k::linorder, 'v) node"
  assumes "well_formed node" and "sorted (inorder node)"
  shows "sorted (keys node)"
proof (cases node)
  case (Node a ks vs cs lf nx)
  show ?thesis
  proof (cases lf)
    case True
    then show ?thesis using assms Node by simp
  next
    case False
    then have "length (map inorder cs) = Suc (length ks)" using assms Node by simp
    from sorted_weave_keys [OF this] show ?thesis using assms Node False by simp
  qed
qed

lemma sorted_inorder_child:
  fixes node :: "('k::linorder, 'v) node"
  shows "well_formed node \<Longrightarrow> \<not> is_leaf node \<Longrightarrow> i \<le> length (keys node)
   \<Longrightarrow> sorted (inorder node) \<Longrightarrow> sorted (inorder (children node ! i))"
  by (cases node) (auto intro: sorted_child)

text \<open>\<open>_split_child\<close> on a child that holds a key keeps the invariant of the parent.\<close>

lemma list_insert_update:
  "i < length cs \<Longrightarrow> list_insert (Suc i) r (cs[i := l]) = take i cs @ l # r # drop (Suc i) cs"
  by (simp add: list_insert_def take_Suc_conv_app_nth)

lemma split_child_inv:
  fixes node :: "('k::linorder, 'v) node"
  assumes wf: "well_formed node" and int: "\<not> is_leaf node" and i: "i \<le> length (keys node)"
    and full: "keys (children node ! i) \<noteq> []" and s: "sorted (inorder node)"
  shows "\<exists>node' m. split_child fresh node i = Inr node' \<and> well_formed node'
     \<and> \<not> is_leaf node'
     \<and> keys node' = take i (keys node) @ m # drop i (keys node)
     \<and> sorted (inorder node')
     \<and> leaf_keys node' = leaf_keys node
     \<and> sep_keys node' \<subseteq> sep_keys node \<union> leaf_keys node"
proof -
  obtain a ks vs cs lf nx where node: "node = Node a ks vs cs lf nx" by (cases node) auto
  have lf: "\<not> lf" using int node by simp
  have len: "length cs = Suc (length ks)" and wfc: "\<forall>c\<in>set cs. well_formed c"
    using wf node lf by auto
  have i': "i \<le> length ks" and ilt: "i < length cs" using i node len by auto
  obtain b kc vc cc lfc nc where child: "cs ! i = Node b kc vc cc lfc nc"
    by (cases "cs ! i") auto
  have wfch: "well_formed (cs ! i)" using wfc nth_mem [OF ilt] by blast
  define sp where "sp = length kc div 2"
  have kc: "kc \<noteq> []" using full node child by simp
  then have sp: "sp < length kc" by (simp add: sp_def)
  define m where "m = kc ! sp"
  define l where "l = (if lfc then Node b (take sp kc) (take sp vc) cc True (Some fresh)
      else Node b (take sp kc) vc (take (Suc sp) cc) False nc)"
  define r where "r = (if lfc then Node fresh (drop sp kc) (drop sp vc) [] True nc
      else Node fresh (drop (Suc sp) kc) [] (drop (Suc sp) cc) False None)"
  let ?n' = "Node a (take i ks @ m # drop i ks) vs (take i cs @ l # r # drop (Suc i) cs) False nx"
  have run: "split_child fresh node i = Inr ?n'"
    using ilt sp lf list_insert_update [OF ilt]
    by (simp add: split_child_def node child sp_def [symmetric] m_def l_def r_def Let_def
        list_insert_def [of i])
  let ?L = "weave_left (take i ks) (map inorder (take i cs))"
  let ?R = "weave_right (drop i ks) (map inorder (drop (Suc i) cs))"
  have e: "inorder node = ?L @ inorder (cs ! i) @ ?R"
    using weave_at [OF len i', of inorder] node lf by simp
  have e': "inorder ?n' = ?L @ inorder l @ m # inorder r @ ?R"
    using weave_append [of "map inorder (take i cs)" "take i ks" "m # drop i ks" "inorder l"
        "inorder r # map inorder (drop (Suc i) cs)"] i' len
    by simp
  have parts: "well_formed l \<and> well_formed r
      \<and> sorted (?L @ inorder l @ m # inorder r @ ?R)
      \<and> leaf_keys l \<union> leaf_keys r = leaf_keys (cs ! i)
      \<and> insert m (sep_keys l \<union> sep_keys r) \<subseteq> sep_keys (cs ! i) \<union> leaf_keys (cs ! i)"
  proof (cases lfc)
    case True
    have lv: "length vc = length kc" using wfch child True by simp
    have kd: "drop sp kc = m # drop (Suc sp) kc"
      using sp by (simp add: m_def Cons_nth_drop_Suc)
    have ke: "kc = take sp kc @ m # drop (Suc sp) kc"
      using sp by (simp add: m_def id_take_nth_drop [symmetric])
    have "sorted (?L @ (take sp kc @ m # drop (Suc sp) kc) @ ?R)"
      using s e child True ke by simp
    then have "sorted (?L @ take sp kc @ m # m # drop (Suc sp) kc @ ?R)"
      by (auto simp: sorted_append)
    moreover have "set (take sp kc) \<union> set (drop sp kc) = set kc"
      by (metis append_take_drop_id set_append)
    moreover have "m \<in> set kc" using sp by (simp add: m_def)
    moreover have "well_formed l \<and> well_formed r"
      using True lv by (simp add: l_def r_def)
    ultimately show ?thesis
      using True child kd by (simp add: l_def r_def)
  next
    case False
    have lc: "length cc = Suc (length kc)" and wcc: "\<forall>c\<in>set cc. well_formed c"
      using wfch child False by auto
    have spl: "sp \<le> length kc" using sp by simp
    have c1: "inorder (cs ! i) = weave_left (take sp kc) (map inorder (take sp cc))
        @ inorder (cc ! sp) @ weave_right (drop sp kc) (map inorder (drop (Suc sp) cc))"
      using weave_at [OF lc spl, of inorder] child False by simp
    have kd: "drop sp kc = m # drop (Suc sp) kc"
      using sp by (simp add: m_def Cons_nth_drop_Suc)
    have cd: "drop (Suc sp) cc = cc ! Suc sp # drop (Suc (Suc sp)) cc"
      using sp lc by (simp add: Cons_nth_drop_Suc)
    have tk: "take (Suc sp) cc = take sp cc @ [cc ! sp]"
      using sp lc by (simp add: take_Suc_conv_app_nth)
    have il: "inorder l = weave_left (take sp kc) (map inorder (take sp cc)) @ inorder (cc ! sp)"
      using weave_append [of "map inorder (take sp cc)" "take sp kc" "[]" "inorder (cc ! sp)" "[]"]
        sp lc False tk
      by (simp add: l_def)
    have ir: "m # inorder r = weave_right (drop sp kc) (map inorder (drop (Suc sp) cc))"
      using False kd cd by (simp add: r_def weave_def)
    have io: "inorder l @ m # inorder r = inorder (cs ! i)"
      using il ir c1 by simp
    have srt: "sorted (?L @ inorder l @ m # inorder r @ ?R)"
      using s e io by (metis append.assoc append_Cons)
    have wl: "well_formed l" and wr: "well_formed r"
      using False sp lc wcc by (auto simp: l_def r_def dest: in_set_takeD in_set_dropD)
    have cu: "set (take (Suc sp) cc) \<union> set (drop (Suc sp) cc) = set cc"
      by (metis append_take_drop_id set_append)
    have lk: "leaf_keys l \<union> leaf_keys r = leaf_keys (cs ! i)"
      using False child cu by (auto simp: l_def r_def)
    have ku: "set kc = set (take sp kc) \<union> {m} \<union> set (drop (Suc sp) kc)"
      using set_nth_split [OF sp] by (simp add: m_def)
    have sk: "insert m (sep_keys l \<union> sep_keys r) \<subseteq> sep_keys (cs ! i) \<union> leaf_keys (cs ! i)"
      using False child cu ku by (auto simp: l_def r_def)
    show ?thesis using wl wr srt lk sk by simp
  qed
  have wf': "well_formed ?n'"
    using parts wfc len i' by (auto dest: in_set_takeD in_set_dropD)
  have s': "sorted (inorder ?n')" using parts e' by simp
  have lk': "leaf_keys ?n' = leaf_keys node"
    using parts UN_nth_split [OF ilt, of leaf_keys] node lf by auto
  have "leaf_keys (cs ! i) \<subseteq> leaf_keys node"
    using node lf nth_mem [OF ilt] by auto
  moreover have "set (take i ks) \<union> set (drop i ks) = set ks"
    by (metis append_take_drop_id set_append)
  ultimately have sk': "sep_keys ?n' \<subseteq> sep_keys node \<union> leaf_keys node"
    using parts UN_nth_split [OF ilt, of sep_keys] node lf by auto
  show ?thesis
    using run wf' s' lk' sk' node by (intro exI [of _ ?n'] exI [of _ m]) simp
qed

text \<open>
  \<open>_insert_non_full\<close> returns normally and keeps a subtree well formed and in order;
  separators it adds are keys of leaf entries.
\<close>

lemma sorted_list_insert:
  fixes key :: "'k::linorder"
  assumes "sorted ks"
  shows "sorted (take (scan_gt key ks) ks @ key # drop (scan_gt key ks) ks)"
proof -
  have "sorted (take (scan_gt key ks) ks @ drop (scan_gt key ks) ks)"
    using assms by simp
  then show ?thesis
    using scan_gt_take_below [of key ks] scan_gt_drop_above [OF assms, of key]
    by (fastforce simp: sorted_append simp del: append_take_drop_id)
qed

lemma leaf_insert_grows:
  fixes key :: "'k::linorder"
  assumes "is_leaf node" and "well_formed node" and "sorted (inorder node)"
  shows "grows key node (Node (nid node) (list_insert (scan_gt key (keys node)) key (keys node))
     (list_insert (scan_gt key (keys node)) val (vals node)) (children node) (is_leaf node)
     (nxt node))"
proof -
  obtain a ks vs cs lf nx where node: "node = Node a ks vs cs lf nx" by (cases node) auto
  have "set (take (scan_gt key ks) ks) \<union> set (drop (scan_gt key ks) ks) = set ks"
    by (metis append_take_drop_id set_append)
  then show ?thesis
    using assms node sorted_list_insert [of ks key]
    by (auto simp: grows_def list_insert_def)
qed

lemma update_child_grows:
  fixes key :: "'k::linorder"
  assumes wf: "well_formed node" and int: "\<not> is_leaf node" and s: "sorted (inorder node)"
    and i: "i \<le> length (keys node)"
    and lo: "\<forall>k\<in>set (take i (keys node)). k < key"
    and hi: "\<forall>k\<in>set (drop i (keys node)). key \<le> k"
    and g: "grows key (children node ! i) c'"
  shows "grows key node (Node (nid node) (keys node) (vals node) ((children node)[i := c'])
     (is_leaf node) (nxt node))"
proof -
  obtain a ks vs cs lf nx where node: "node = Node a ks vs cs lf nx" by (cases node) auto
  have lf: "\<not> lf" using int node by simp
  have len: "length cs = Suc (length ks)" and wfc: "\<forall>c\<in>set cs. well_formed c"
    using wf node lf by auto
  have i': "i \<le> length ks" and ilt: "i < length cs" using i node len by auto
  let ?n' = "Node a ks vs (cs[i := c']) False nx"
  have gc: "well_formed c'" "sorted (inorder c')"
    "set (inorder c') \<subseteq> insert key (set (inorder (cs ! i)))"
    "leaf_keys (cs ! i) \<subseteq> leaf_keys c'"
    "sep_keys c' \<subseteq> sep_keys (cs ! i) \<union> leaf_keys (cs ! i)"
    using g node by (auto simp: grows_def)
  have sw: "sorted (weave ks (map inorder cs))" using s node lf by simp
  have su: "set (cs[i := c']) = set (take i cs) \<union> {c'} \<union> set (drop (Suc i) cs)"
    by (rule set_update_split [OF ilt])
  have sn: "set cs = set (take i cs) \<union> {cs ! i} \<union> set (drop (Suc i) cs)"
    by (rule set_nth_split [OF ilt])
  have wf': "well_formed ?n'"
    using len wfc gc(1) su sn by auto
  have s': "sorted (inorder ?n')"
    using sorted_update_child [OF len i' sw _ _ gc(2) gc(3)] lo hi node by simp
  have U: "(\<Union>c\<in>set cs. f c) = (\<Union>c\<in>set (take i cs). f c) \<union> f (cs ! i)
        \<union> (\<Union>c\<in>set (drop (Suc i) cs). f c)" for f :: "_ \<Rightarrow> 'k set"
    by (rule UN_nth_split [OF ilt])
  have U': "(\<Union>c\<in>set (cs[i := c']). f c) = (\<Union>c\<in>set (take i cs). f c) \<union> f c'
        \<union> (\<Union>c\<in>set (drop (Suc i) cs). f c)" for f :: "_ \<Rightarrow> 'k set"
    by (rule UN_update_split [OF ilt])
  have lk: "leaf_keys node \<subseteq> leaf_keys ?n'"
    using gc(4) U [of leaf_keys] U' [of leaf_keys] node lf by auto
  have "leaf_keys (cs ! i) \<subseteq> leaf_keys node"
    using node lf nth_mem [OF ilt] by auto
  then have sk: "sep_keys ?n' \<subseteq> sep_keys node \<union> leaf_keys node"
    using gc(5) U [of sep_keys] U' [of sep_keys] node lf by auto
  have si: "set (inorder ?n') \<subseteq> insert key (set (inorder node))"
  proof -
    have "set (inorder ?n') = leaf_keys ?n' \<union> sep_keys ?n'"
      by (rule set_inorder [OF wf'])
    have e: "inorder node = weave_left (take i ks) (map inorder (take i cs)) @ inorder (cs ! i)
        @ weave_right (drop i ks) (map inorder (drop (Suc i) cs))"
      using weave_at [OF len i', of inorder] node lf by simp
    have e': "inorder ?n' = weave_left (take i ks) (map inorder (take i cs)) @ inorder c'
        @ weave_right (drop i ks) (map inorder (drop (Suc i) cs))"
      using weave_update [OF len i', of inorder c'] by simp
    show ?thesis unfolding e e' using gc(3) by auto
  qed
  show ?thesis
    using wf' s' si lk sk node lf by (simp add: grows_def)
qed

lemma grows_after_split:
  assumes "well_formed node" and "well_formed node_s"
    and "leaf_keys node_s = leaf_keys node"
    and "sep_keys node_s \<subseteq> sep_keys node \<union> leaf_keys node"
    and "grows key node_s node'"
  shows "grows key node node'"
  using assms set_inorder [of node] set_inorder [of node_s]
  by (auto simp: grows_def)

lemma insert_non_full_grows:
  fixes key :: "'k::linorder"
  shows "well_formed node \<Longrightarrow> sorted (inorder node) \<Longrightarrow> maxk \<noteq> 0 \<Longrightarrow>
   \<exists>node' f'. insert_non_full maxk fresh node key val = Inr (node', f') \<and> grows key node node'"
proof (induction maxk fresh node key val rule: insert_non_full.induct)
  case (1 maxk fresh node key val)
  note wf = \<open>well_formed node\<close> and s = \<open>sorted (inorder node)\<close>
  show ?case
  proof (cases "is_leaf node")
    case True
    then show ?thesis
      using leaf_insert_grows [OF True wf s, of key val]
      by (subst insert_non_full.simps) (simp add: Let_def)
  next
    case False
    let ?i = "scan_gt key (keys node)"
    have i: "?i \<le> length (keys node)" by (rule scan_gt_le)
    have len: "length (children node) = Suc (length (keys node))"
      using well_formed_internal [OF wf False] by simp
    have nl: "\<not> length (children node) \<le> ?i" using i len by simp
    have lo: "\<forall>k\<in>set (take ?i (keys node)). k < key" by (rule scan_gt_take_below)
    have hi: "\<forall>k\<in>set (drop ?i (keys node)). key \<le> k"
      by (rule scan_gt_drop_above [OF sorted_keys [OF wf s]])
    show ?thesis
    proof (cases "int (length (keys (children node ! ?i))) = maxk")
      case full: True
      then have ne: "keys (children node ! ?i) \<noteq> []" using \<open>maxk \<noteq> 0\<close> by auto
      obtain node_s m where sp: "split_child fresh node ?i = Inr node_s"
        and wfs: "well_formed node_s" and ints: "\<not> is_leaf node_s"
        and ks: "keys node_s = take ?i (keys node) @ m # drop ?i (keys node)"
        and ss: "sorted (inorder node_s)"
        and lk: "leaf_keys node_s = leaf_keys node"
        and sk: "sep_keys node_s \<subseteq> sep_keys node \<union> leaf_keys node"
        using split_child_inv [OF wf False i ne s, of fresh] by blast
      have m: "keys node_s ! ?i = m" using i by (simp add: ks nth_append)
      define j where "j = (if key > keys node_s ! ?i then ?i + 1 else ?i)"
      have jl: "j \<le> length (keys node_s)" using i by (simp add: j_def ks)
      have lo': "\<forall>k\<in>set (take j (keys node_s)). k < key"
        using lo i m by (auto simp: j_def ks)
      have hi': "\<forall>k\<in>set (drop j (keys node_s)). key \<le> k"
        using hi i m by (auto simp: j_def ks)
      have "\<exists>c f'. insert_non_full maxk (fresh + 1) (children node_s ! j) key val = Inr (c, f')
          \<and> grows key (children node_s ! j) c"
        using "1.IH"(1) [OF False refl nl full sp j_def]
          well_formed_child [OF wfs ints jl] sorted_inorder_child [OF wfs ints jl ss]
          \<open>maxk \<noteq> 0\<close>
        by blast
      then obtain c f' where
        run: "insert_non_full maxk (fresh + 1) (children node_s ! j) key val = Inr (c, f')"
        and g: "grows key (children node_s ! j) c" by blast
      have "grows key node_s (Node (nid node_s) (keys node_s) (vals node_s)
          ((children node_s)[j := c]) (is_leaf node_s) (nxt node_s))"
        by (rule update_child_grows [OF wfs ints ss jl lo' hi' g])
      then have "grows key node (Node (nid node_s) (keys node_s) (vals node_s)
          ((children node_s)[j := c]) (is_leaf node_s) (nxt node_s))"
        by (rule grows_after_split [OF wf wfs lk sk])
      moreover have "insert_non_full maxk fresh node key val =
          Inr (Node (nid node_s) (keys node_s) (vals node_s)
          ((children node_s)[j := c]) (is_leaf node_s) (nxt node_s), f')"
        using False nl full sp run
        by (subst insert_non_full.simps) (simp add: Let_def j_def)
      ultimately show ?thesis by blast
    next
      case notfull: False
      have "\<exists>c f'. insert_non_full maxk fresh (children node ! ?i) key val = Inr (c, f')
          \<and> grows key (children node ! ?i) c"
        using "1.IH"(2) [OF False refl nl notfull]
          well_formed_child [OF wf False i] sorted_inorder_child [OF wf False i s]
          \<open>maxk \<noteq> 0\<close>
        by blast
      then obtain c f' where
        run: "insert_non_full maxk fresh (children node ! ?i) key val = Inr (c, f')"
        and g: "grows key (children node ! ?i) c" by blast
      have "grows key node (Node (nid node) (keys node) (vals node)
          ((children node)[?i := c]) (is_leaf node) (nxt node))"
        by (rule update_child_grows [OF wf False s i lo hi g])
      moreover have "insert_non_full maxk fresh node key val =
          Inr (Node (nid node) (keys node) (vals node)
          ((children node)[?i := c]) (is_leaf node) (nxt node), f')"
        using False nl notfull run
        by (subst insert_non_full.simps) (simp add: Let_def)
      ultimately show ?thesis by blast
    qed
  qed
qed

text \<open>
  \<open>_delete\<close> raises \<open>KeyError\<close>, or returns with the subtree unchanged (it met a separator
  equal to the key), or removes one leaf entry of a key that is no separator.
\<close>

lemma update_child_shrinks:
  fixes key :: "'k::linorder"
  assumes wf: "well_formed node" and int: "\<not> is_leaf node" and s: "sorted (inorder node)"
    and i: "i \<le> length (keys node)"
    and lo: "\<forall>k\<in>set (take i (keys node)). k < key"
    and hi: "\<forall>k\<in>set (drop i (keys node)). key < k"
    and g: "shrinks key (children node ! i) c'"
  shows "shrinks key node (Node (nid node) (keys node) (vals node) ((children node)[i := c'])
     (is_leaf node) (nxt node))"
proof -
  obtain a ks vs cs lf nx where node: "node = Node a ks vs cs lf nx" by (cases node) auto
  have lf: "\<not> lf" using int node by simp
  have len: "length cs = Suc (length ks)" and wfc: "\<forall>c\<in>set cs. well_formed c"
    using wf node lf by auto
  have i': "i \<le> length ks" and ilt: "i < length cs" using i node len by auto
  let ?n' = "Node a ks vs (cs[i := c']) False nx"
  have gc: "well_formed c'" "sorted (inorder c')"
    "set (inorder c') \<subseteq> set (inorder (cs ! i))"
    "leaf_keys (cs ! i) - {key} \<subseteq> leaf_keys c'"
    "sep_keys c' = sep_keys (cs ! i)" "key \<notin> sep_keys (cs ! i)"
    using g node by (auto simp: shrinks_def)
  have sw: "sorted (weave ks (map inorder cs))" using s node lf by simp
  have su: "set (cs[i := c']) = set (take i cs) \<union> {c'} \<union> set (drop (Suc i) cs)"
    by (rule set_update_split [OF ilt])
  have sn: "set cs = set (take i cs) \<union> {cs ! i} \<union> set (drop (Suc i) cs)"
    by (rule set_nth_split [OF ilt])
  have wf': "well_formed ?n'"
    using len wfc gc(1) su sn by auto
  have lo': "\<forall>k\<in>set (take i ks). k < key" and hi': "\<forall>k\<in>set (drop i ks). key < k"
    using lo hi node by auto
  have hi'': "\<forall>k\<in>set (drop i ks). key \<le> k" using hi' by auto
  have c2: "set (inorder c') \<subseteq> insert key (set (inorder (cs ! i)))" using gc(3) by auto
  have s': "sorted (inorder ?n')"
    using sorted_update_child [OF len i' sw lo' hi'' gc(2) c2] by simp
  let ?L = "weave_left (take i ks) (map inorder (take i cs))"
  let ?R = "weave_right (drop i ks) (map inorder (drop (Suc i) cs))"
  have e: "inorder node = ?L @ inorder (cs ! i) @ ?R"
    using weave_at [OF len i', of inorder] node lf by simp
  have e': "inorder ?n' = ?L @ inorder c' @ ?R"
    using weave_update [OF len i', of inorder c'] by simp
  have si: "set (inorder ?n') \<subseteq> set (inorder node)"
    unfolding e e' using gc(3) by auto
  have U: "(\<Union>c\<in>set cs. f c) = (\<Union>c\<in>set (take i cs). f c) \<union> f (cs ! i)
        \<union> (\<Union>c\<in>set (drop (Suc i) cs). f c)" for f :: "_ \<Rightarrow> 'k set"
    by (rule UN_nth_split [OF ilt])
  have U': "(\<Union>c\<in>set (cs[i := c']). f c) = (\<Union>c\<in>set (take i cs). f c) \<union> f c'
        \<union> (\<Union>c\<in>set (drop (Suc i) cs). f c)" for f :: "_ \<Rightarrow> 'k set"
    by (rule UN_update_split [OF ilt])
  have lk: "leaf_keys node - {key} \<subseteq> leaf_keys ?n'"
    using gc(4) U [of leaf_keys] U' [of leaf_keys] node lf by auto
  have sk: "sep_keys ?n' = sep_keys node"
    using gc(5) U [of sep_keys] U' [of sep_keys] node lf by auto
  have sL: "sorted ?L" and sR: "sorted ?R"
    using s unfolding e by (auto simp: sorted_append)
  have lenL: "length (map inorder (take i cs)) = length (take i ks)"
    using len i' by simp
  have lenR: "length (map inorder (drop (Suc i) cs)) = length (drop i ks)"
    using len i' by simp
  have bL: "\<forall>x\<in>set ?L. x < key"
    by (rule weave_left_below [OF lenL sL lo'])
  have bR: "\<forall>x\<in>set ?R. key < x"
    by (rule weave_right_above_strict [OF lenR sR hi'])
  have kL: "key \<notin> set ?L" and kR: "key \<notin> set ?R" using bL bR by auto
  have "key \<notin> set ks"
    using lo' hi' by (metis append_take_drop_id set_append Un_iff less_irrefl)
  moreover have "key \<notin> sep_keys c" if "c \<in> set (take i cs)" for c
  proof -
    have "well_formed c" using that wfc by (auto dest: in_set_takeD)
    then have "sep_keys c \<subseteq> set (inorder c)" using set_inorder [of c] by simp
    also have "\<dots> \<subseteq> set ?L" using that set_weave_left [OF lenL] by auto
    finally show ?thesis using kL by auto
  qed
  moreover have "key \<notin> sep_keys c" if "c \<in> set (drop (Suc i) cs)" for c
  proof -
    have "well_formed c" using that wfc by (auto dest: in_set_dropD)
    then have "sep_keys c \<subseteq> set (inorder c)" using set_inorder [of c] by simp
    also have "\<dots> \<subseteq> set ?R" using that set_weave_right [OF lenR] by auto
    finally show ?thesis using kR by auto
  qed
  ultimately have ks: "key \<notin> sep_keys node"
    using gc(6) U [of sep_keys] node lf by auto
  show ?thesis
    using wf' s' si lk sk ks node lf by (simp add: shrinks_def)
qed

lemma list_index_nth:
  "x \<in> set xs \<Longrightarrow> list_index x xs < length xs \<and> xs ! list_index x xs = x"
  by (induction xs) (auto simp: list_index_def)

lemma leaf_delete_shrinks:
  fixes key :: "'k::linorder"
  assumes lf: "is_leaf node" and wf: "well_formed node" and s: "sorted (inorder node)"
    and k: "key \<in> set (keys node)"
  shows "\<exists>node'. delete_from_leaf node key = Inr node' \<and> shrinks key node node'"
proof -
  obtain a ks vs cs l nx where node: "node = Node a ks vs cs l nx" by (cases node) auto
  define i where "i = list_index key ks"
  have kk: "key \<in> set ks" using k node by simp
  have i: "i < length ks" and ki: "ks ! i = key"
    using list_index_nth [OF kk] by (simp_all add: i_def)
  have lv: "length vs = length ks" using wf lf node by simp
  have sk: "sorted ks" using s lf node by simp
  have ke: "ks = take i ks @ key # drop (Suc i) ks"
    using i ki id_take_nth_drop [of i ks] by simp
  have "sorted (take i ks @ key # drop (Suc i) ks)" using sk ke by simp
  then have sp: "sorted (take i ks @ drop (Suc i) ks)" by (auto simp: sorted_append)
  have se: "set ks = set (take i ks) \<union> {key} \<union> set (drop (Suc i) ks)"
    using set_nth_split [OF i] ki by simp
  let ?n' = "Node a (take i ks @ drop (Suc i) ks) (take i vs @ drop (Suc i) vs) cs True nx"
  have run: "delete_from_leaf node key = Inr ?n'"
    using kk i lv lf node by (simp add: delete_from_leaf_def Let_def i_def list_pop_def)
  moreover have "shrinks key node ?n'"
    using lf node lv sp se i by (auto simp: shrinks_def dest: in_set_takeD in_set_dropD)
  ultimately show ?thesis by blast
qed

lemma scan_gt_drop_strict:
  fixes key :: "'k::linorder"
  assumes "sorted ks"
    and "\<not> (scan_gt key ks < length ks \<and> key = ks ! scan_gt key ks)"
  shows "\<forall>k\<in>set (drop (scan_gt key ks) ks). key < k"
  using assms by (induction ks) (auto split: if_splits)

lemma delete_node_cases:
  fixes key :: "'k::linorder"
  shows "well_formed node \<Longrightarrow> sorted (inorder node) \<Longrightarrow>
   delete_node mink node key = Inl KeyError \<or> delete_node mink node key = Inr node
   \<or> (\<exists>node'. delete_node mink node key = Inr node' \<and> shrinks key node node')"
proof (induction mink node key rule: delete_node.induct)
  case (1 mink node key)
  note wf = \<open>well_formed node\<close> and s = \<open>sorted (inorder node)\<close>
  show ?case
  proof (cases "is_leaf node")
    case True
    show ?thesis
    proof (cases "key \<in> set (keys node)")
      case k: True
      then show ?thesis
        using leaf_delete_shrinks [OF True wf s k] True
        by (subst (1 2 3) delete_node.simps) simp
    next
      case False
      then show ?thesis
        using True by (subst delete_node.simps) (simp add: delete_from_leaf_def)
    qed
  next
    case False
    let ?i = "scan_gt key (keys node)"
    have i: "?i \<le> length (keys node)" by (rule scan_gt_le)
    have len: "length (children node) = Suc (length (keys node))"
      using well_formed_internal [OF wf False] by simp
    have nl: "\<not> length (children node) \<le> ?i" using i len by simp
    show ?thesis
    proof (cases "?i < length (keys node) \<and> key = keys node ! ?i")
      case True
      then have "delete_node mink node key = Inr node"
        using False by (subst delete_node.simps) (simp add: Let_def delete_internal_key_def)
      then show ?thesis by simp
    next
      case nm: False
      have lo: "\<forall>k\<in>set (take ?i (keys node)). k < key" by (rule scan_gt_take_below)
      have hi: "\<forall>k\<in>set (drop ?i (keys node)). key < k"
        by (rule scan_gt_drop_strict [OF sorted_keys [OF wf s] nm])
      have step: "delete_node mink node key =
          (case delete_node mink (children node ! ?i) key of
             Inl e \<Rightarrow> Inl e
           | Inr c \<Rightarrow> Inr (Node (nid node) (keys node) (vals node) ((children node)[?i := c])
               (is_leaf node) (nxt node)))"
      proof -
        have c: "(?i < length (keys node) \<and> key = keys node ! ?i) = False" using nm by simp
        show ?thesis
          using False nl
          by (subst delete_node.simps) (simp add: Let_def fix_child_def c split: sum.split)
      qed
      have ih: "delete_node mink (children node ! ?i) key = Inl KeyError
          \<or> delete_node mink (children node ! ?i) key = Inr (children node ! ?i)
          \<or> (\<exists>c. delete_node mink (children node ! ?i) key = Inr c
              \<and> shrinks key (children node ! ?i) c)"
        using "1.IH" [OF False refl nm nl refl refl refl]
          well_formed_child [OF wf False i] sorted_inorder_child [OF wf False i s]
        by blast
      then consider (err) "delete_node mink (children node ! ?i) key = Inl KeyError"
        | (same) "delete_node mink (children node ! ?i) key = Inr (children node ! ?i)"
        | (less) c where "delete_node mink (children node ! ?i) key = Inr c"
            "shrinks key (children node ! ?i) c"
        by blast
      then show ?thesis
      proof cases
        case err
        then show ?thesis using step by simp
      next
        case same
        have "Node (nid node) (keys node) (vals node) ((children node)[?i := children node ! ?i])
            (is_leaf node) (nxt node) = node" by simp
        then show ?thesis using step same by simp
      next
        case less
        have "shrinks key node (Node (nid node) (keys node) (vals node)
            ((children node)[?i := c]) (is_leaf node) (nxt node))"
          by (rule update_child_shrinks [OF wf False s i lo hi less(2)])
        then show ?thesis using step less(1) by simp
      qed
    qed
  qed
qed

lemma delete_node_absent_raises:
  "well_formed node \<Longrightarrow> key \<notin> leaf_keys node \<Longrightarrow> key \<notin> sep_keys node
   \<Longrightarrow> delete_node mink node key = Inl KeyError"
proof (induction mink node key rule: delete_node.induct)
  case (1 mink node key)
  note wf = \<open>well_formed node\<close>
  show ?case
  proof (cases "is_leaf node")
    case True
    then have "key \<notin> set (keys node)" using "1.prems" by (cases node) auto
    then show ?thesis
      using True by (subst delete_node.simps) (simp add: delete_from_leaf_def)
  next
    case False
    let ?i = "scan_gt key (keys node)"
    have i: "?i \<le> length (keys node)" by (rule scan_gt_le)
    have len: "length (children node) = Suc (length (keys node))"
      using well_formed_internal [OF wf False] by simp
    have nl: "\<not> length (children node) \<le> ?i" using i len by simp
    have mem: "children node ! ?i \<in> set (children node)" using nl by simp
    have "key \<notin> set (keys node)" using "1.prems" False by (cases node) auto
    then have nm: "\<not> (?i < length (keys node) \<and> key = keys node ! ?i)"
      by (metis nth_mem)
    have "key \<notin> leaf_keys (children node ! ?i)" "key \<notin> sep_keys (children node ! ?i)"
      using "1.prems" False mem by (cases node; auto)+
    then have "delete_node mink (children node ! ?i) key = Inl KeyError"
      using "1.IH" [OF False refl nm nl refl refl refl] well_formed_child [OF wf False i]
      by blast
    then show ?thesis
      using False nm nl by (subst delete_node.simps) (simp add: Let_def fix_child_def)
  qed
qed

text \<open>
  \<open>insert\<close> never raises on a tree that meets the invariant and \<open>delete\<close> raises nothing
  but \<open>KeyError\<close>; both keep the invariant, and so does every sequence of calls on a new
  tree.
\<close>

lemma new_tree_inv: "tree_inv (new_tree d)"
proof -
  have "2 * d - 1 \<noteq> 0" by presburger
  then show ?thesis by (simp add: tree_inv_def new_tree_def)
qed

lemma bpt_insert_inv:
  fixes key :: "'k::linorder"
  assumes inv: "tree_inv t"
  shows "\<exists>t'. bpt_insert t key val = Inr t' \<and> tree_inv t'"
proof -
  have wf: "well_formed (root t)" and s: "sorted (inorder (root t))"
    and sl: "sep_keys (root t) \<subseteq> leaf_keys (root t)" and mk: "max_keys t \<noteq> 0"
    using inv by (auto simp: tree_inv_def)
  show ?thesis
  proof (cases "int (length (keys (root t))) = max_keys t")
    case True
    let ?nr = "Node (next_id t) [] [] [root t] False None"
    have wfn: "well_formed ?nr" using wf by simp
    have sn: "sorted (inorder ?nr)" using s by (simp add: weave_def)
    have ne: "keys (children ?nr ! 0) \<noteq> []" using True mk by auto
    obtain node_s m where sp: "split_child (next_id t + 1) ?nr 0 = Inr node_s"
      and wfs: "well_formed node_s"
      and ss: "sorted (inorder node_s)"
      and lk: "leaf_keys node_s = leaf_keys ?nr"
      and sk: "sep_keys node_s \<subseteq> sep_keys ?nr \<union> leaf_keys ?nr"
      using split_child_inv [OF wfn _ _ ne sn, of "next_id t + 1"] by auto
    obtain r f' where run: "insert_non_full (max_keys t) (next_id t + 2) node_s key val = Inr (r, f')"
      and g: "grows key node_s r"
      using insert_non_full_grows [OF wfs ss mk] by blast
    have "bpt_insert t key val = Inr (t\<lparr> root := r, next_id := f' \<rparr>)"
      using True sp run by (simp add: bpt_insert_def Let_def)
    moreover have "tree_inv (t\<lparr> root := r, next_id := f' \<rparr>)"
    proof -
      have "leaf_keys node_s \<subseteq> leaf_keys r"
        and "sep_keys r \<subseteq> sep_keys node_s \<union> leaf_keys node_s"
        using g by (auto simp: grows_def)
      then have "sep_keys r \<subseteq> leaf_keys r" using lk sk sl by simp blast
      then show ?thesis using g mk by (simp add: tree_inv_def grows_def)
    qed
    ultimately show ?thesis by blast
  next
    case False
    obtain r f' where run: "insert_non_full (max_keys t) (next_id t) (root t) key val = Inr (r, f')"
      and g: "grows key (root t) r"
      using insert_non_full_grows [OF wf s mk] by blast
    have "bpt_insert t key val = Inr (t\<lparr> root := r, next_id := f' \<rparr>)"
      using False run by (simp add: bpt_insert_def Let_def)
    moreover have "tree_inv (t\<lparr> root := r, next_id := f' \<rparr>)"
    proof -
      have "leaf_keys (root t) \<subseteq> leaf_keys r"
        and "sep_keys r \<subseteq> sep_keys (root t) \<union> leaf_keys (root t)"
        using g by (auto simp: grows_def)
      then have "sep_keys r \<subseteq> leaf_keys r" using sl by blast
      then show ?thesis using g mk by (simp add: tree_inv_def grows_def)
    qed
    ultimately show ?thesis by blast
  qed
qed

lemma collapse_root:
  assumes "well_formed r" and "\<not> is_leaf r" and "length (children r) = 1"
  shows "well_formed (children r ! 0) \<and> inorder (children r ! 0) = inorder r
     \<and> leaf_keys (children r ! 0) = leaf_keys r \<and> sep_keys (children r ! 0) = sep_keys r"
proof -
  obtain a ks vs cs lf nx where r: "r = Node a ks vs cs lf nx" by (cases r) auto
  obtain c where cs: "cs = [c]" using assms r by (cases cs) auto
  show ?thesis using assms r cs by (simp add: weave_def)
qed

lemma bpt_delete_inv:
  fixes key :: "'k::linorder"
  assumes inv: "tree_inv t"
  shows "bpt_delete t key = Inl KeyError \<or> (\<exists>t'. bpt_delete t key = Inr t' \<and> tree_inv t')"
proof -
  have wf: "well_formed (root t)" and s: "sorted (inorder (root t))"
    and sl: "sep_keys (root t) \<subseteq> leaf_keys (root t)" and mk: "max_keys t \<noteq> 0"
    using inv by (auto simp: tree_inv_def)
  have ok: "tree_inv (t\<lparr> root := (if \<not> is_leaf r \<and> length (children r) = 1
        then children r ! 0 else r) \<rparr>)"
    if "well_formed r" "sorted (inorder r)" "sep_keys r \<subseteq> leaf_keys r" for r
    using that mk collapse_root [of r] by (auto simp: tree_inv_def)
  consider (err) "delete_node (min_keys t) (root t) key = Inl KeyError"
    | (same) "delete_node (min_keys t) (root t) key = Inr (root t)"
    | (less) r where "delete_node (min_keys t) (root t) key = Inr r" "shrinks key (root t) r"
    using delete_node_cases [OF wf s, of "min_keys t" key] by blast
  then show ?thesis
  proof cases
    case err
    then show ?thesis by (simp add: bpt_delete_def)
  next
    case same
    then show ?thesis using ok [OF wf s sl] by (simp add: bpt_delete_def)
  next
    case less
    have "sep_keys r \<subseteq> leaf_keys r"
      using less(2) sl by (auto simp: shrinks_def)
    then show ?thesis
      using less ok [of r] by (simp add: bpt_delete_def shrinks_def)
  qed
qed

lemma apply_op_inv:
  fixes t :: "('k::linorder, 'v) bplus_tree"
  assumes "tree_inv t"
  shows "(\<exists>k. c = Delete k \<and> apply_op t c = Inl KeyError)
     \<or> (\<exists>t'. apply_op t c = Inr t' \<and> tree_inv t')"
proof (cases c)
  case (Insert k v)
  then show ?thesis using bpt_insert_inv [OF assms, of k v] by (simp add: apply_op_def)
next
  case (Delete k)
  then show ?thesis using bpt_delete_inv [OF assms, of k] by (simp add: apply_op_def)
qed

lemma run_ops_inv:
  fixes t :: "('k::linorder, 'v) bplus_tree"
  shows "tree_inv t \<Longrightarrow> tree_inv (run_ops t ops)"
proof (induction ops arbitrary: t)
  case Nil
  then show ?case by simp
next
  case (Cons c ops)
  from apply_op_inv [OF Cons.prems, of c] show ?case
    using Cons by auto
qed

lemma leaf_keys_leaves: "leaf_keys n = set (concat (map keys (leaves n)))"
  by (induction n) auto


lemma separators_are_leaf_keys:
  fixes d :: int and ops :: "('k::linorder, 'v) tree_op list"
  shows "sep_keys (root (run_ops (new_tree d) ops))
     \<subseteq> leaf_keys (root (run_ops (new_tree d) ops))"
  using run_ops_inv [OF new_tree_inv, of d ops] by (simp add: tree_inv_def)

text \<open>
  In a well-formed tree, \<open>delete\<close> of a key that is stored nowhere, neither in a leaf nor
  as a separator, raises \<open>KeyError\<close>.
\<close>

lemma bpt_delete_absent_raises:
  assumes "well_formed (root t)" and "key \<notin> leaf_keys (root t)" and "key \<notin> sep_keys (root t)"
  shows "bpt_delete t key = Inl KeyError"
  using delete_node_absent_raises [OF assms] by (simp add: bpt_delete_def)

text \<open>
  A separator stops the descent: \<open>_delete_internal_key\<close> is an empty stub, so \<open>delete\<close> of a
  key equal to a separator on its path returns normally and changes nothing, here for a
  key that is also in a leaf, in the tree that six inserts build.
\<close>

lemma delete_present_separator_key_is_noop:
  "insert_each (new_tree 3) (five @ [(''6'', ''v6'')]) = Inr six_tree
   \<and> bpt_get six_tree ''3'' = Inr (Some ''v3'')
   \<and> bpt_delete six_tree ''3'' = Inr six_tree"
  by (simp add: five_def six_tree_def bpt_eval)

text \<open>
  The stub would also return silently for a separator that is the key of no leaf entry, as
  in \<open>separator_only\<close>; no sequence of \<open>insert\<close> and \<open>delete\<close> calls on a new tree builds
  such a tree.
\<close>

lemma separator_only_is_silent:
  "bpt_get separator_only ''3'' = Inr None
   \<and> bpt_delete separator_only ''3'' = Inr separator_only"
  by (simp add: separator_only_def bpt_eval)

lemma separator_only_not_built: "run_ops (new_tree d) ops \<noteq> separator_only"
proof
  assume "run_ops (new_tree d) ops = separator_only"
  then have "tree_inv separator_only"
    using run_ops_inv [OF new_tree_inv, of d ops] by simp
  then show False by (simp add: tree_inv_def separator_only_def)
qed

text \<open>
  C5. Take a new \<open>BPlusTree(degree)\<close> of any degree and make any sequence of \<open>insert\<close> and
  \<open>delete\<close> calls on it. In the tree they leave, \<open>delete\<close> of a key that has no entry in
  any leaf raises \<open>KeyError\<close>. Such a key never equals a separator: every separator of the
  tree is also the key of a leaf entry, because \<open>_split_child\<close> copies it from a leaf and
  \<open>delete\<close> of a key equal to a separator changes nothing. So the unimplemented
  \<open>_delete_internal_key\<close> is never what answers the \<open>delete\<close> of an absent key.
\<close>

theorem delete_absent_key_raises:
  fixes key :: "'k::linorder"
  assumes "key \<notin> set (concat (map keys (leaves (root (run_ops (new_tree d) ops)))))"
  shows "bpt_delete (run_ops (new_tree d) ops) key = Inl KeyError
     \<and> key \<notin> sep_keys (root (run_ops (new_tree d) ops))"
proof -
  let ?t = "run_ops (new_tree d) ops"
  have inv: "tree_inv ?t" by (rule run_ops_inv [OF new_tree_inv])
  have k: "key \<notin> leaf_keys (root ?t)" using assms by (simp add: leaf_keys_leaves)
  then have ks: "key \<notin> sep_keys (root ?t)" using inv by (auto simp: tree_inv_def)
  have "well_formed (root ?t)" using inv by (simp add: tree_inv_def)
  from delete_node_absent_raises [OF this k ks] ks show ?thesis by (simp add: bpt_delete_def)
qed


text \<open>
  The nine calls of \<open>calls\<close> leave the leaf keys \<open>1, 2, 3, 5, 6\<close>; the key \<open>4\<close>, deleted by
  the last call, is absent and \<open>delete(4)\<close> raises \<open>KeyError\<close>.
\<close>

theorem delete_absent_key_raises_witness:
  "run_ops (new_tree 3) calls = after_calls
   \<and> concat (map keys (leaves (root after_calls))) = [''1'', ''2'', ''3'', ''5'', ''6'']
   \<and> bpt_delete after_calls ''4'' = Inl KeyError"
proof -
  have r: "run_ops (new_tree 3) calls = after_calls"
    by (simp add: calls_def after_calls_def apply_op_def bpt_eval)
  have l: "concat (map keys (leaves (root after_calls))) = [''1'', ''2'', ''3'', ''5'', ''6'']"
    by (simp add: after_calls_def)
  have "''4'' \<notin> set (concat (map keys (leaves (root (run_ops (new_tree 3) calls)))))"
    unfolding r l by simp
  from delete_absent_key_raises [OF this] r l show ?thesis by simp
qed

end
